theory Spec2Isabelle
  imports Complex_Main "HOL-Library.Signed_Division" "HOL-Library.Multiset"
begin

section \<open>Memory, errors and outcomes\<close>

text \<open>
  The matrix class of \<^verbatim>\<open>matrix.h\<close> works on raw memory: a matrix holds a pointer
  \<^verbatim>\<open>data_\<close> into a buffer that it may or may not own, slices hold pointers into the
  buffer of a matrix, and most operations write through these pointers. Memory is
  therefore modelled as a flat store of cells addressed by natural numbers, with a
  break \<open>brk\<close> below which every cell is allocated; an allocation hands out the cells
  from the break upwards; an allocation that fails throws before any element exists
  and is outside the model. The element type \<^verbatim>\<open>Real\<close> is a type parameter of the
  model as it is of the class. Where the source computes with elements, the model uses
  the operations of the element type (\<open>+\<close>, \<open>-\<close>, \<open>*\<close>, \<open>/\<close>, \<open>abs\<close>, \<open><\<close>, \<open>0\<close> and \<open>1\<close>), of
  which nothing is assumed: they may be exact, as on the real numbers, or rounded, as
  on \<^verbatim>\<open>double\<close>.

  \<^verbatim>\<open>size_t\<close> values and addresses are natural numbers. The product
  \<^verbatim>\<open>nRows * nCols\<close> of the allocating constructor, whose arguments are arbitrary, is
  reduced modulo \<open>2 ^ 64\<close> as unsigned arithmetic does; the other products are of the
  dimensions of an existing buffer and do not wrap. An \<^verbatim>\<open>int\<close> is a mathematical integer that has to stay in the 32-bit range:
  where the source would leave that range (signed overflow, which is undefined
  behaviour, or a narrowing conversion) the model stops with \<open>IntRange\<close>. Division
  by zero on integers and accesses outside a container or outside the allocated memory
  stop with \<open>DivisionByZero\<close> and \<open>OutOfRange\<close>. A \<^verbatim>\<open>std::runtime_error\<close> carries its
  message; \<open>length_error\<close> is the exception of a vector constructed with a negative
  size. A computation that does not return is \<open>None\<close>.
\<close>

datatype error =
    runtime_error string
  | length_error
  | IntRange
  | DivisionByZero
  | OutOfRange

type_synonym 'r outcome = "(error + 'r) option"

definition ok :: "'r \<Rightarrow> 'r outcome" where
  "ok x = Some (Inr x)"

definition fail :: "error \<Rightarrow> 'r outcome" where
  "fail e = Some (Inl e)"

definition andThen :: "'r outcome \<Rightarrow> ('r \<Rightarrow> 's outcome) \<Rightarrow> 's outcome" where
  "andThen m f = (case m of None \<Rightarrow> None | Some (Inl e) \<Rightarrow> Some (Inl e) | Some (Inr x) \<Rightarrow> f x)"

definition INT_MAX :: int where
  "INT_MAX = 2147483647"

definition int_ok :: "int \<Rightarrow> bool" where
  "int_ok x \<longleftrightarrow> - INT_MAX - 1 \<le> x \<and> x \<le> INT_MAX"

record 'a heap =
  cells :: "nat \<Rightarrow> 'a"
  brk :: nat

definition poke :: "nat \<Rightarrow> 'a \<Rightarrow> 'a heap \<Rightarrow> 'a heap" where
  "poke p v h = h\<lparr>cells := (cells h)(p := v)\<rparr>"

text \<open>
  A loop \<^verbatim>\<open>for (int i = 0; i < bound; ++i)\<close> whose bound is a \<^verbatim>\<open>size_t\<close>: the body runs
  for the counter values that an \<^verbatim>\<open>int\<close> can hold, and the increment past the
  largest one is an overflow.
\<close>

definition for_int :: "nat \<Rightarrow> (nat \<Rightarrow> 's \<Rightarrow> 's outcome) \<Rightarrow> 's \<Rightarrow> 's outcome" where
  "for_int bound body s =
     fold (\<lambda>i m. andThen m (\<lambda>t. if int_ok (int i) then body i t else fail IntRange))
       [0..<bound] (ok s)"

text \<open>
  A \<^verbatim>\<open>std::vector\<close> of \<open>n\<close> zeros takes the \<open>n\<close> cells at the break.
  \<^verbatim>\<open>std::copy\<close> and \<^verbatim>\<open>std::for_each\<close> walk their range from the first element on.
\<close>

definition allocate :: "nat \<Rightarrow> 'a::zero heap \<Rightarrow> nat \<times> 'a heap" where
  "allocate n h =
     (brk h, h\<lparr>cells := (\<lambda>p. if brk h \<le> p \<and> p < brk h + n then 0 else cells h p),
               brk := brk h + n\<rparr>)"

definition copy :: "nat \<Rightarrow> nat \<Rightarrow> nat \<Rightarrow> 'a heap \<Rightarrow> 'a heap" where
  "copy first lastp d_first h =
     fold (\<lambda>i h. poke (d_first + i) (cells h (first + i)) h) [0..<lastp - first] h"

definition for_each :: "nat \<Rightarrow> nat \<Rightarrow> ('a \<Rightarrow> 'a) \<Rightarrow> 'a heap \<Rightarrow> 'a heap" where
  "for_each first lastp fn h =
     fold (\<lambda>i h. poke (first + i) (fn (cells h (first + i))) h) [0..<lastp - first] h"

definition swap_cells :: "nat \<Rightarrow> nat \<Rightarrow> 'a heap \<Rightarrow> 'a heap" where
  "swap_cells p q h = h\<lparr>cells := (cells h)(p := cells h q, q := cells h p)\<rparr>"

section \<open>In-place transposition of a buffer\<close>

text \<open>
  \<^verbatim>\<open>transposeMemoryInPlace(first, last, m)\<close>. The inner \<^verbatim>\<open>do ... while\<close> loop follows
  one cycle of the index permutation; it is entered with the iterator \<open>cycle\<close> and the
  current index \<open>a\<close>, and works on the memory and the \<^verbatim>\<open>visited\<close> bit vector.
\<close>

partial_function (option) cycle_loop ::
  "nat \<Rightarrow> int \<Rightarrow> int \<Rightarrow> nat \<Rightarrow> int \<Rightarrow> 'a heap \<times> bool list \<Rightarrow> ('a heap \<times> bool list) outcome"
where
  "cycle_loop first n mn1 cycle a s =
     (if a \<noteq> mn1 \<and> \<not> int_ok (n * a) then Some (Inl IntRange)
      else if a \<noteq> mn1 \<and> mn1 = 0 then Some (Inl DivisionByZero)
      else
        let a' = (if a = mn1 then mn1 else (n * a) smod mn1) in
        if a' < 0 \<or> int (length (snd s)) \<le> a' then Some (Inl OutOfRange)
        else
          let h' = swap_cells (first + nat a') cycle (fst s);
              visited' = (snd s)[nat a' := True]
          in if first + nat a' \<noteq> cycle then cycle_loop first n mn1 cycle a' (h', visited')
             else Some (Inr (h', visited')))"

text \<open>
  The outer \<^verbatim>\<open>while (++cycle != last)\<close> loop; \<open>cycle\<close> is the iterator before the
  increment.
\<close>

partial_function (option) cycle_scan ::
  "nat \<Rightarrow> nat \<Rightarrow> int \<Rightarrow> int \<Rightarrow> nat \<Rightarrow> 'a heap \<times> bool list \<Rightarrow> ('a heap \<times> bool list) outcome"
where
  "cycle_scan first lastp n mn1 cycle s =
     (let cycle' = cycle + 1 in
      if cycle' = lastp then Some (Inr s)
      else if length (snd s) \<le> cycle' - first then Some (Inl OutOfRange)
      else if snd s ! (cycle' - first) then cycle_scan first lastp n mn1 cycle' s
      else if \<not> int_ok (int (cycle' - first)) then Some (Inl IntRange)
      else
        (case cycle_loop first n mn1 cycle' (int (cycle' - first)) s of
           None \<Rightarrow> None
         | Some (Inl e) \<Rightarrow> Some (Inl e)
         | Some (Inr s') \<Rightarrow> cycle_scan first lastp n mn1 cycle' s'))"

definition transposeMemoryInPlace :: "nat \<Rightarrow> nat \<Rightarrow> int \<Rightarrow> 'a heap \<Rightarrow> 'a heap outcome" where
  "transposeMemoryInPlace first lastp m h =
     (let len = int lastp - int first in
      if \<not> int_ok (len - 1) then fail IntRange
      else if m = 0 then fail DivisionByZero
      else if \<not> int_ok (len sdiv m) then fail IntRange
      else
        let mn1 = len - 1;
            n = len sdiv m;
            visited = replicate (nat len) False
        in andThen (cycle_scan first lastp n mn1 first (h, visited)) (\<lambda>s. ok (fst s)))"

section \<open>The matrix class\<close>

text \<open>
  A matrix object is its two dimensions \<^verbatim>\<open>nRows_\<close>, \<^verbatim>\<open>nCols_\<close> and the pointer \<^verbatim>\<open>data_\<close>
  (the fields \<open>nRows\<close>, \<open>nCols\<close> and \<open>data\<close>). The member
  \<^verbatim>\<open>allocatedData_\<close> only owns the buffer that \<^verbatim>\<open>data_\<close> points to when the matrix
  allocated it; no operation reads it, so it has no field of its own.
\<close>

record Matrix =
  nRows :: nat
  nCols :: nat
  data :: nat

text \<open>\<^verbatim>\<open>operator()(row, col)\<close>, \<^verbatim>\<open>begin()\<close> and \<^verbatim>\<open>end()\<close> (the same pointers as \<^verbatim>\<open>cbegin()\<close> and \<^verbatim>\<open>cend()\<close>).\<close>

definition elem :: "'a heap \<Rightarrow> Matrix \<Rightarrow> nat \<Rightarrow> nat \<Rightarrow> 'a" where
  "elem h M row col = cells h (data M + row * nCols M + col)"

definition cbegin :: "Matrix \<Rightarrow> nat" where
  "cbegin M = data M"

definition cend :: "Matrix \<Rightarrow> nat" where
  "cend M = data M + nRows M * nCols M"

text \<open>
  \<^verbatim>\<open>transposeInPlace\<close>: the parameter \<^verbatim>\<open>m\<close> of \<^verbatim>\<open>transposeMemoryInPlace\<close> is an
  \<^verbatim>\<open>int\<close>, so the column count is narrowed on the call.
\<close>

text \<open>
  The allocating constructor \<^verbatim>\<open>Matrix(nRows, nCols)\<close>, whose vector of
  \<^verbatim>\<open>nRows * nCols\<close> elements (a product of two \<^verbatim>\<open>size_t\<close>, 64 bits wide) is filled
  with zeros. The borrowing constructor \<^verbatim>\<open>Matrix(ptr, nRows, nCols)\<close> is the record itself.
  Copying a matrix object copies the pointer; the copy of \<^verbatim>\<open>allocatedData_\<close> made
  along with it is never read and is left out.
\<close>

definition size_t_mul :: "nat \<Rightarrow> nat \<Rightarrow> nat" where
  "size_t_mul a b = (a * b) mod 2 ^ 64"

definition Matrix_ctor :: "nat \<Rightarrow> nat \<Rightarrow> 'a::zero heap \<Rightarrow> Matrix \<times> 'a heap" where
  "Matrix_ctor R C h =
     (let (p, h') = allocate (size_t_mul R C) h in (\<lparr>nRows = R, nCols = C, data = p\<rparr>, h'))"

definition assertSameSize :: "Matrix \<Rightarrow> Matrix \<Rightarrow> unit outcome" where
  "assertSameSize M other =
     (if nRows M \<noteq> nRows other \<or> nCols M \<noteq> nCols other
      then fail (runtime_error ''Attepting to compare matrices of different sizes!'')
      else ok ())"

definition assertSquare :: "Matrix \<Rightarrow> unit outcome" where
  "assertSquare M =
     (if nRows M \<noteq> nCols M
      then fail (runtime_error
             ''Attepting to perform a square matrix operation on a non-square matrix!'')
      else ok ())"

definition transposeInPlace :: "Matrix \<Rightarrow> 'a heap \<Rightarrow> (Matrix \<times> 'a heap) outcome" where
  "transposeInPlace M h =
     (if \<not> int_ok (int (nCols M)) then fail IntRange
      else andThen (transposeMemoryInPlace (cbegin M) (cend M) (int (nCols M)) h)
             (\<lambda>h'. ok (M\<lparr>nCols := nRows M, nRows := nCols M\<rparr>, h')))"

definition clone :: "Matrix \<Rightarrow> 'a::zero heap \<Rightarrow> Matrix \<times> 'a heap" where
  "clone M h =
     (let (newMatrix, h1) = Matrix_ctor (nRows M) (nCols M) h
      in (newMatrix, copy (cbegin M) (cend M) (cbegin newMatrix) h1))"

definition transpose_matrix :: "Matrix \<Rightarrow> 'a::zero heap \<Rightarrow> (Matrix \<times> 'a heap) outcome" where
  "transpose_matrix M h = (let (copy, h1) = clone M h in transposeInPlace copy h1)"

text \<open>
  \<^verbatim>\<open>multiply\<close>: the three loops, with the running pointer \<^verbatim>\<open>output\<close> into the
  product as part of the loop state.
\<close>

definition multiply ::
  "Matrix \<Rightarrow> Matrix \<Rightarrow> 'a::{zero,plus,times} heap \<Rightarrow> (Matrix \<times> 'a heap) outcome" where
  "multiply M other h =
     (if nCols M \<noteq> nRows other
      then fail (runtime_error ''Attempting to multiply matrices with incompatible dimensions.'')
      else
        let (product, h1) = Matrix_ctor (nRows M) (nCols other) h in
        andThen
          (for_int (nRows M)
             (\<lambda>row.
                let rowPtr = data M + row * nCols M in
                for_int (nCols other)
                  (\<lambda>col s.
                     andThen
                       (for_int (nCols M)
                          (\<lambda>link (output, h).
                             ok (output,
                                 poke output
                                   (cells h output +
                                    cells h (rowPtr + link) *
                                    cells h (data other + link * nCols other + col)) h))
                          s)
                       (\<lambda>(output, h). ok (output + 1, h))))
             (data product, h1))
          (\<lambda>(output, h'). ok (product, h')))"

text \<open>
  The default threshold \<^verbatim>\<open>1e-10f\<close> of \<^verbatim>\<open>isNearZero\<close> and \<^verbatim>\<open>assertSymmetric\<close> is a
  single-precision literal; its exact value is \<open>14411519 / 2 ^ 57\<close>. Where the source
  relies on the default, the model takes the threshold in the element type as a
  parameter.
\<close>

definition default_threshold :: real where
  "default_threshold = 14411519 / 2 ^ 57"

definition isNearZero :: "Matrix \<Rightarrow> 'a \<Rightarrow> 'a::{abs,ord} heap \<Rightarrow> bool" where
  "isNearZero M threshold h =
     (\<not> list_ex (\<lambda>i. \<bar>cells h (cbegin M + i)\<bar> > threshold) [0..<cend M - cbegin M])"

definition assertSymmetric :: "Matrix \<Rightarrow> 'a \<Rightarrow> 'a::{abs,minus,ord} heap \<Rightarrow> unit outcome" where
  "assertSymmetric M threshold h =
     andThen (assertSquare M)
       (\<lambda>_. for_int (nRows M)
          (\<lambda>row. for_int row
             (\<lambda>col _.
                if \<bar>cells h (data M + (row * nCols M + col)) -
                    cells h (data M + (col * nCols M + row))\<bar> > threshold
                then fail (runtime_error ''Unexpected non-symmetric matrix found.'')
                else ok ()))
          ())"

definition applyOperationToEachElement :: "('a \<Rightarrow> 'a) \<Rightarrow> Matrix \<Rightarrow> 'a heap \<Rightarrow> 'a heap" where
  "applyOperationToEachElement fn M h = for_each (cbegin M) (cend M) fn h"

section \<open>Diagonalisation through the external eigensolver\<close>

text \<open>
  \<^verbatim>\<open>LapackWrapper<Real>::diagonalizer()\<close> is not part of the sources; it is a parameter
  of the model. A call \<^verbatim>\<open>diagonalizer('V', 'N', n, a, n, wr, wi, vl, n, nullptr, 1,
  work, lwork, &info)\<close> reads the \<open>n * n\<close> cells of \<open>a\<close> and \<open>lwork\<close> and leaves its results
  in its output arguments: the overwritten \<open>a\<close>, the real and imaginary parts \<open>wr\<close>,
  \<open>wi\<close> of the eigenvalues, the eigenvectors \<open>vl\<close>, the first cell of \<open>work\<close> and
  \<open>info\<close>. With \<open>lwork = -1\<close> (the workspace query) only the first cell of \<open>work\<close> and
  \<open>info\<close> are set. The contents of the scratch vector \<open>work\<close> are never read again and
  are not written back; the field \<open>out_work\<close> is the value of its first cell as a real
  number.
\<close>

record 'a geev_result =
  out_a :: "'a list"
  out_wr :: "'a list"
  out_wi :: "'a list"
  out_vl :: "'a list"
  out_work :: real
  out_info :: int

type_synonym 'a diagonalizer = "nat \<Rightarrow> 'a list \<Rightarrow> int \<Rightarrow> 'a geev_result"

definition peek :: "nat \<Rightarrow> nat \<Rightarrow> 'a heap \<Rightarrow> 'a list" where
  "peek first n h = map (\<lambda>i. cells h (first + i)) [0..<n]"

definition store :: "nat \<Rightarrow> 'a list \<Rightarrow> 'a heap \<Rightarrow> 'a heap" where
  "store first xs h = fold (\<lambda>i h. poke (first + i) (xs ! i) h) [0..<length xs] h"

definition call_diagonalizer ::
  "'a diagonalizer \<Rightarrow> nat \<Rightarrow> nat \<Rightarrow> nat \<Rightarrow> nat \<Rightarrow> nat \<Rightarrow> int \<Rightarrow> 'a heap \<Rightarrow> int \<times> 'a heap" where
  "call_diagonalizer solver n a wr wi vl lwork h =
     (let res = solver n (peek a (n * n) h) lwork
      in (out_info res,
          store vl (out_vl res) (store wi (out_wi res) (store wr (out_wr res)
            (store a (out_a res) h)))))"

datatype SortOrder = Ascending | Descending

record 'a eigenInfo =
  valueReal :: 'a
  valueImag :: 'a
  vector :: nat

text \<open>\<^verbatim>\<open>static_cast<int>\<close> of a floating-point value truncates towards zero.\<close>

definition truncate_real :: "real \<Rightarrow> int" where
  "truncate_real x = (if 0 \<le> x then \<lfloor>x\<rfloor> else \<lceil>x\<rceil>)"

text \<open>
  \<^verbatim>\<open>std::sort\<close> with \<^verbatim>\<open>eigenInfo::operator<\<close>, which compares \<^verbatim>\<open>valueReal\<close>, is not
  part of the sources and leaves the relative order of elements with equal keys open.
  It is a parameter \<open>sorter\<close> of the model.
\<close>

text \<open>
  The two loops of \<^verbatim>\<open>diagonalize\<close> over \<^verbatim>\<open>val\<close>: the first collects the
  \<^verbatim>\<open>eigenInfo\<close> entries, the second writes the sorted entries back, the eigenvalues
  into \<^verbatim>\<open>evalsReal\<close> and \<^verbatim>\<open>evalsImag\<close> and the eigenvectors into the scratch vector
  \<^verbatim>\<open>clone\<close> (the argument \<open>scratch\<close>).
\<close>

definition collect_eigenTuples ::
  "Matrix \<Rightarrow> Matrix \<Rightarrow> Matrix \<Rightarrow> nat \<Rightarrow> 'a heap \<Rightarrow> 'a eigenInfo list outcome" where
  "collect_eigenTuples evalsReal evalsImag evecs n h =
     for_int n
       (\<lambda>val eigenTuples.
          ok (eigenTuples @
                [\<lparr>valueReal = cells h (data evalsReal + val * nCols evalsReal + 0),
                  valueImag = cells h (data evalsImag + val * nCols evalsImag + 0),
                  vector = data evecs + val * nCols evecs\<rparr>]))
       []"

definition store_eigenTuples ::
  "'a eigenInfo list \<Rightarrow> Matrix \<Rightarrow> Matrix \<Rightarrow> nat \<Rightarrow> nat \<Rightarrow> nat \<Rightarrow> 'a heap \<Rightarrow> 'a heap outcome" where
  "store_eigenTuples eigenTuples evalsReal evalsImag scratch n nc h =
     for_int n
       (\<lambda>val h.
          let e = eigenTuples ! val;
              h = poke (data evalsReal + val) (valueReal e) h;
              h = poke (data evalsImag + val) (valueImag e) h
          in ok (copy (vector e) (vector e + nc) (scratch + val * nc) h))
       h"

definition diagonalize ::
  "'a diagonalizer \<Rightarrow> ('a eigenInfo list \<Rightarrow> 'a eigenInfo list) \<Rightarrow> SortOrder \<Rightarrow> Matrix \<Rightarrow>
     'a::zero heap \<Rightarrow> ((Matrix \<times> Matrix \<times> Matrix) \<times> 'a heap) outcome" where
  "diagonalize solver sorter order M h =
     (if nRows M \<noteq> nCols M
      then fail (runtime_error ''Attempting to diagonalize a non-square matrix.'')
      else
        let (evalsReal, h1) = Matrix_ctor (nRows M) 1 h;
            (evalsImag, h2) = Matrix_ctor (nRows M) 1 h1;
            (evecs, h3) = Matrix_ctor (nRows M) (nRows M) h2;
            (clone, h4) = allocate (nRows M * nCols M) h3;
            h5 = copy (data M) (data M + nRows M * nCols M) clone h4;
            workDim = out_work (solver (nRows M) (peek clone (nRows M * nRows M) h5) (- 1))
        in
        if \<not> int_ok (truncate_real workDim) then fail IntRange
        else
          let scratchSize = truncate_real workDim in
          if scratchSize < 0 then fail length_error
          else
            let (work, h6) = allocate (nat scratchSize) h5;
                (info, h7) = call_diagonalizer solver (nRows M) clone (data evalsReal)
                               (data evalsImag) (data evecs) scratchSize h6
            in
            if info \<noteq> 0
            then fail (runtime_error ''Something went wrong during diagonalization!'')
            else
              andThen (collect_eigenTuples evalsReal evalsImag evecs (nRows M) h7)
                (\<lambda>eigenTuples.
                   let sorted = sorter eigenTuples;
                       ordered = (if order = Descending then rev sorted else sorted)
                   in
                   andThen
                     (store_eigenTuples ordered evalsReal evalsImag clone (nRows M) (nCols M) h7)
                     (\<lambda>h8.
                        let h9 = copy clone (clone + nRows M * nCols M) (cbegin evecs) h8
                        in andThen (transposeInPlace evecs h9)
                             (\<lambda>(evecs', h10). ok ((evalsReal, evalsImag, evecs'), h10)))))"

text \<open>
  \<^verbatim>\<open>applyOperation\<close>, which \<^verbatim>\<open>inverse\<close> uses for every size but 3, and \<^verbatim>\<open>inverse\<close>.
  Both call \<^verbatim>\<open>assertSymmetric\<close> and \<^verbatim>\<open>isNearZero\<close> with the default threshold, the
  parameter \<open>threshold\<close>.
\<close>

text \<open>
  The loop of \<^verbatim>\<open>applyOperation\<close> that multiplies row \<open>row\<close> of the transposed
  eigenvectors by the transformed eigenvalue \<open>row\<close>.
\<close>

definition scale_rows :: "Matrix \<Rightarrow> Matrix \<Rightarrow> nat \<Rightarrow> nat \<Rightarrow> 'a::times heap \<Rightarrow> 'a heap outcome" where
  "scale_rows evalsReal evecsT n nc h =
     for_int n
       (\<lambda>row h.
          let transformedEigenvalue = cells h (data evalsReal + row * nCols evalsReal + 0)
          in ok (for_each (data evecsT + row * nc) (data evecsT + (row + 1) * nc)
                   (\<lambda>val. val * transformedEigenvalue) h))
       h"

definition applyOperation ::
  "'a diagonalizer \<Rightarrow> ('a eigenInfo list \<Rightarrow> 'a eigenInfo list) \<Rightarrow> 'a \<Rightarrow> ('a \<Rightarrow> 'a) \<Rightarrow> Matrix \<Rightarrow>
     'a::{zero,plus,minus,times,abs,ord} heap \<Rightarrow> (Matrix \<times> 'a heap) outcome" where
  "applyOperation solver sorter threshold fn M h =
     andThen (assertSymmetric M threshold h)
       (\<lambda>_. andThen (diagonalize solver sorter Ascending M h)
          (\<lambda>((evalsReal, evalsImag, evecs), h1).
             if \<not> isNearZero evalsImag threshold h1
             then fail (runtime_error
                    ''Unexpected complex eigenvalues encountered when applying operator to Matrix.'')
             else
               let h2 = applyOperationToEachElement fn evalsReal h1 in
               andThen (transpose_matrix evecs h2)
                 (\<lambda>(evecsT, h3).
                    andThen (scale_rows evalsReal evecsT (nRows M) (nCols M) h3)
                      (\<lambda>h4. multiply evecs evecsT h4))))"

text \<open>
  The nine assignments of the 3 by 3 case all have the form
  \<^verbatim>\<open>matrixInverse.data_[k] = (data_[a] * data_[b] - data_[c] * data_[e]) * determinantInverse\<close>;
  the table lists \<open>(a, b, c, e)\<close> for \<open>k = 0, ..., 8\<close> in the order of the source. They
  are executed one after the other, each reading \<^verbatim>\<open>data_\<close> from the memory as it is
  then.
\<close>

definition inverse3_terms :: "(nat \<times> nat \<times> nat \<times> nat) list" where
  "inverse3_terms =
     [(4, 8, 7, 5), (2, 7, 1, 8), (1, 5, 2, 4),
      (5, 6, 3, 8), (0, 8, 2, 6), (3, 2, 0, 5),
      (3, 7, 6, 4), (6, 1, 0, 7), (0, 4, 3, 1)]"

definition inverse_matrix ::
  "'a diagonalizer \<Rightarrow> ('a eigenInfo list \<Rightarrow> 'a eigenInfo list) \<Rightarrow> 'a \<Rightarrow> Matrix \<Rightarrow>
     'a::{zero,one,plus,minus,times,inverse,abs,ord} heap \<Rightarrow> (Matrix \<times> 'a heap) outcome" where
  "inverse_matrix solver sorter threshold M h =
     andThen (assertSquare M)
       (\<lambda>_.
          let (matrixInverse, h) = Matrix_ctor (nRows M) (nRows M) h in
          if nRows M = 3 then
            let d = (\<lambda>h i. cells h (data M + i));
                determinant = d h 0 * (d h 4 * d h 8 - d h 7 * d h 5) -
                              d h 1 * (d h 3 * d h 8 - d h 5 * d h 6) +
                              d h 2 * (d h 3 * d h 7 - d h 4 * d h 6);
                determinantInverse = 1 / determinant;
                h = fold (\<lambda>k h. case inverse3_terms ! k of
                                    (a, b, c, e) \<Rightarrow>
                                      poke (data matrixInverse + k)
                                        ((d h a * d h b - d h c * d h e) * determinantInverse) h)
                      [0..<9] h
            in ok (matrixInverse, h)
          else applyOperation solver sorter threshold (\<lambda>element. 1 / element) M h)"

section \<open>Comparison within a tolerance\<close>

text \<open>
  \<^verbatim>\<open>std::equal(first1, last1, first2, pred)\<close> stops at the first pair that fails the
  predicate. \<^verbatim>\<open>almostEquals\<close> has one version for floating-point elements and one for
  complex elements, where the tolerance is the real part of the argument. A complex
  element \<^verbatim>\<open>std::complex<T>\<close> is its two parts \<^verbatim>\<open>real()\<close> and \<^verbatim>\<open>imag()\<close> of type
  \<^verbatim>\<open>T\<close>.
\<close>

record 'a std_complex =
  real_part :: 'a
  imag_part :: 'a

fun equal_loop :: "nat \<Rightarrow> nat \<Rightarrow> nat \<Rightarrow> ('a \<Rightarrow> 'a \<Rightarrow> bool) \<Rightarrow> 'a heap \<Rightarrow> bool" where
  "equal_loop 0 first1 first2 pred h = True"
| "equal_loop (Suc k) first1 first2 pred h =
     (if \<not> pred (cells h first1) (cells h first2) then False
      else equal_loop k (first1 + 1) (first2 + 1) pred h)"

definition std_equal :: "nat \<Rightarrow> nat \<Rightarrow> nat \<Rightarrow> ('a \<Rightarrow> 'a \<Rightarrow> bool) \<Rightarrow> 'a heap \<Rightarrow> bool" where
  "std_equal first1 last1 first2 pred h = equal_loop (last1 - first1) first1 first2 pred h"

definition almostEquals ::
  "Matrix \<Rightarrow> Matrix \<Rightarrow> 'a \<Rightarrow> 'a::{minus,uminus,ord} heap \<Rightarrow> bool outcome" where
  "almostEquals M other tolerance h =
     andThen (assertSameSize M other)
       (\<lambda>_. ok (std_equal (cbegin M) (cend M) (cbegin other)
                   (\<lambda>a b. (a - b) < tolerance \<and> (a - b) > - tolerance) h))"

definition almostEquals_complex ::
  "Matrix \<Rightarrow> Matrix \<Rightarrow> 'a std_complex \<Rightarrow> 'a::{minus,uminus,ord} std_complex heap \<Rightarrow> bool outcome" where
  "almostEquals_complex M other tolerance h =
     andThen (assertSameSize M other)
       (\<lambda>_. let tol = real_part tolerance in
             ok (std_equal (cbegin M) (cend M) (cbegin other)
                   (\<lambda>a b. (real_part a - real_part b) < tol \<and> (real_part a - real_part b) > - tol \<and>
                          (imag_part a - imag_part b) < tol \<and> (imag_part a - imag_part b) > - tol) h))"

section \<open>Slices\<close>

text \<open>
  \<^verbatim>\<open>sliceIterator\<close> with its members \<^verbatim>\<open>begin_\<close>, \<^verbatim>\<open>end_\<close>, \<^verbatim>\<open>ptr_\<close> and \<^verbatim>\<open>stride_\<close>
  (the fields \<open>beginp\<close>, \<open>endp\<close>, \<open>ptr\<close> and \<open>stride\<close>). \<^verbatim>\<open>size()\<close> divides the
  distance of the two pointers by the stride; a range that ends before it begins stops
  the model with \<open>OutOfRange\<close>.
\<close>

record sliceIterator =
  beginp :: nat
  endp :: nat
  ptr :: nat
  stride :: nat

definition slice :: "nat \<Rightarrow> nat \<Rightarrow> nat \<Rightarrow> sliceIterator" where
  "slice start e st = \<lparr>beginp = start, endp = e, ptr = start, stride = st\<rparr>"

definition slice_begin :: "sliceIterator \<Rightarrow> sliceIterator" where
  "slice_begin s = slice (beginp s) (endp s) (stride s)"

definition slice_end :: "sliceIterator \<Rightarrow> sliceIterator" where
  "slice_end s = slice (endp s) (endp s) 0"

definition row :: "nat \<Rightarrow> Matrix \<Rightarrow> sliceIterator" where
  "row r M = slice (data M + r * nCols M) (data M + (r + 1) * nCols M) 1"

definition col :: "nat \<Rightarrow> Matrix \<Rightarrow> sliceIterator" where
  "col c M = slice (data M + c) (data M + nRows M * nCols M + c) (nCols M)"

definition size_slice :: "sliceIterator \<Rightarrow> nat outcome" where
  "size_slice s =
     (if stride s = 0 then fail DivisionByZero
      else if endp s < beginp s then fail OutOfRange
      else ok ((endp s - beginp s) div stride s))"

definition slice_assertSameSize :: "sliceIterator \<Rightarrow> sliceIterator \<Rightarrow> unit outcome" where
  "slice_assertSameSize s other =
     andThen (size_slice s)
       (\<lambda>n. andThen (size_slice other)
          (\<lambda>k. if n \<noteq> k
                then fail (runtime_error
                       ''Slice operations only supported for slices of the same size.'')
                else ok ()))"

definition assertContiguous :: "sliceIterator \<Rightarrow> unit outcome" where
  "assertContiguous iter =
     (if stride iter \<noteq> 1
      then fail (runtime_error
             ''Slice operations called on operation that is only allowed for contiguous data.'')
      else ok ())"

text \<open>
  The range-based \<^verbatim>\<open>for (auto& element : *this)\<close>: the iterator runs from \<^verbatim>\<open>begin()\<close>
  in steps of its stride until its pointer equals that of \<^verbatim>\<open>end()\<close>.
\<close>

partial_function (option) range_for ::
  "('a \<Rightarrow> 'a) \<Rightarrow> sliceIterator \<Rightarrow> sliceIterator \<Rightarrow> 'a heap \<Rightarrow> 'a heap outcome"
where
  "range_for fn it e h =
     (if ptr it \<noteq> ptr e
      then range_for fn (it\<lparr>ptr := ptr it + stride it\<rparr>) e (poke (ptr it) (fn (cells h (ptr it))) h)
      else Some (Inr h))"

text \<open>The scalar operators \<^verbatim>\<open>*=\<close>, \<^verbatim>\<open>/=\<close>, \<^verbatim>\<open>-=\<close> and \<^verbatim>\<open>+=\<close>.\<close>

definition slice_mul_assign :: "sliceIterator \<Rightarrow> 'a::times \<Rightarrow> 'a heap \<Rightarrow> 'a heap outcome" where
  "slice_mul_assign s val h =
     range_for (\<lambda>element. element * val) (slice_begin s) (slice_end s) h"

definition slice_div_assign ::
  "sliceIterator \<Rightarrow> 'a::{one,times,inverse} \<Rightarrow> 'a heap \<Rightarrow> 'a heap outcome" where
  "slice_div_assign s val h =
     (let invVal = 1 / val
      in range_for (\<lambda>element. element * invVal) (slice_begin s) (slice_end s) h)"

definition slice_sub_assign :: "sliceIterator \<Rightarrow> 'a::minus \<Rightarrow> 'a heap \<Rightarrow> 'a heap outcome" where
  "slice_sub_assign s val h =
     range_for (\<lambda>element. element - val) (slice_begin s) (slice_end s) h"

definition slice_add_assign :: "sliceIterator \<Rightarrow> 'a::plus \<Rightarrow> 'a heap \<Rightarrow> 'a heap outcome" where
  "slice_add_assign s val h =
     range_for (\<lambda>element. element + val) (slice_begin s) (slice_end s) h"

text \<open>
  \<^verbatim>\<open>std::transform\<close> with two input ranges, and the three operators that combine two
  slices: \<^verbatim>\<open>operator-\<close>, \<^verbatim>\<open>operator-=\<close> and \<^verbatim>\<open>operator+=\<close>.
\<close>

definition transform ::
  "nat \<Rightarrow> nat \<Rightarrow> nat \<Rightarrow> nat \<Rightarrow> ('a \<Rightarrow> 'a \<Rightarrow> 'a) \<Rightarrow> 'a heap \<Rightarrow> 'a heap" where
  "transform first1 last1 first2 d_first binop h =
     fold (\<lambda>i h. poke (d_first + i) (binop (cells h (first1 + i)) (cells h (first2 + i))) h)
       [0..<last1 - first1] h"

definition slice_minus ::
  "sliceIterator \<Rightarrow> sliceIterator \<Rightarrow> 'a::{zero,minus} heap \<Rightarrow> (Matrix \<times> 'a heap) outcome" where
  "slice_minus s other h =
     andThen (slice_assertSameSize s other)
       (\<lambda>_. andThen (assertContiguous s)
          (\<lambda>_. andThen (assertContiguous other)
             (\<lambda>_. andThen (size_slice s)
                (\<lambda>n. let (ret, h1) = Matrix_ctor 1 n h
                      in ok (ret, transform (beginp s) (endp s) (beginp other)
                                    (data ret + 0 * nCols ret) (\<lambda>a b. a - b) h1)))))"

definition slice_sub_assign_slice ::
  "sliceIterator \<Rightarrow> sliceIterator \<Rightarrow> 'a::minus heap \<Rightarrow> 'a heap outcome" where
  "slice_sub_assign_slice s other h =
     andThen (slice_assertSameSize s other)
       (\<lambda>_. andThen (assertContiguous s)
          (\<lambda>_. andThen (assertContiguous other)
             (\<lambda>_. ok (transform (beginp s) (endp s) (beginp other) (beginp s)
                         (\<lambda>a b. a - b) h))))"

definition slice_add_assign_slice ::
  "sliceIterator \<Rightarrow> sliceIterator \<Rightarrow> 'a::plus heap \<Rightarrow> 'a heap outcome" where
  "slice_add_assign_slice s other h =
     andThen (slice_assertSameSize s other)
       (\<lambda>_. andThen (assertContiguous s)
          (\<lambda>_. andThen (assertContiguous other)
             (\<lambda>_. ok (transform (beginp s) (endp s) (beginp other) (beginp s)
                         (\<lambda>a b. a + b) h))))"

section \<open>The flat-call boundary\<close>

text \<open>
  Each entry point of the C interface runs its call inside \<^verbatim>\<open>try\<close> with two handlers,
  one for \<^verbatim>\<open>std::runtime_error\<close> and one for everything else. The wrapped member
  functions of the PME instance are not part of the sources: the result of the
  \<^verbatim>\<open>try\<close> block, a value or what was thrown, is the argument of the model. An entry
  point either returns a value to its caller or ends the process with
  \<^verbatim>\<open>exit(code)\<close> after writing to \<^verbatim>\<open>std::cerr\<close>.
\<close>

datatype thrown = std_runtime_error string | other_exception

datatype 'r boundary = Returned 'r | Exited int string

definition endl :: string where
  "endl = [CHR 0x0A]"

definition helpme_createD :: "thrown + 'r \<Rightarrow> 'r boundary" where
  "helpme_createD body =
     (case body of
        Inr pme \<Rightarrow> Returned pme
      | Inl (std_runtime_error what) \<Rightarrow> Exited 1 (what @ endl)
      | Inl other_exception \<Rightarrow> Exited 1 (''An unknown error occured in helpme_createD'' @ endl))"

definition helpme_createF :: "thrown + 'r \<Rightarrow> 'r boundary" where
  "helpme_createF body =
     (case body of
        Inr pme \<Rightarrow> Returned pme
      | Inl (std_runtime_error what) \<Rightarrow> Exited 1 (what @ endl)
      | Inl other_exception \<Rightarrow> Exited 1 (''An unknown error occured in helpme_createF'' @ endl))"

definition helpme_setupD :: "thrown + unit \<Rightarrow> unit boundary" where
  "helpme_setupD body =
     (case body of
        Inr u \<Rightarrow> Returned u
      | Inl (std_runtime_error what) \<Rightarrow> Exited 1 (what @ endl)
      | Inl other_exception \<Rightarrow> Exited 1 (''An unknown error occured in helpme_setupD'' @ endl))"

definition helpme_setupF :: "thrown + unit \<Rightarrow> unit boundary" where
  "helpme_setupF body =
     (case body of
        Inr u \<Rightarrow> Returned u
      | Inl (std_runtime_error what) \<Rightarrow> Exited 1 (what @ endl)
      | Inl other_exception \<Rightarrow> Exited 1 (''An unknown error occured in helpme_setupF'' @ endl))"

definition helpme_set_lattice_vectorsD :: "thrown + unit \<Rightarrow> unit boundary" where
  "helpme_set_lattice_vectorsD body =
     (case body of
        Inr u \<Rightarrow> Returned u
      | Inl (std_runtime_error what) \<Rightarrow> Exited 1 (what @ endl)
      | Inl other_exception \<Rightarrow>
          Exited 1 (''An unknown error occured in helpme_set_lattice_vectorsD'' @ endl))"

definition helpme_set_lattice_vectorsF :: "thrown + unit \<Rightarrow> unit boundary" where
  "helpme_set_lattice_vectorsF body =
     (case body of
        Inr u \<Rightarrow> Returned u
      | Inl (std_runtime_error what) \<Rightarrow> Exited 1 (what @ endl)
      | Inl other_exception \<Rightarrow>
          Exited 1 (''An unknown error occured in helpme_set_lattice_vectorsF'' @ endl))"

definition helpme_compute_EF_recD :: "thrown + 'r \<Rightarrow> 'r boundary" where
  "helpme_compute_EF_recD body =
     (case body of
        Inr energy \<Rightarrow> Returned energy
      | Inl (std_runtime_error what) \<Rightarrow> Exited 1 (what @ endl)
      | Inl other_exception \<Rightarrow> Exited 1 (''An unknown error occured in helpme_run_pmeD'' @ endl))"

definition helpme_compute_EF_recF :: "thrown + 'r \<Rightarrow> 'r boundary" where
  "helpme_compute_EF_recF body =
     (case body of
        Inr energy \<Rightarrow> Returned energy
      | Inl (std_runtime_error what) \<Rightarrow> Exited 1 (what @ endl)
      | Inl other_exception \<Rightarrow> Exited 1 (''An unknown error occured in helpme_run_pmeF'' @ endl))"

section \<open>Specification functions and invariants\<close>

definition dest :: "nat \<Rightarrow> nat \<Rightarrow> nat \<Rightarrow> nat" where
  "dest R C i = (i mod C) * R + i div C"

definition scan_inv :: "nat \<Rightarrow> nat \<Rightarrow> nat \<Rightarrow> 'a heap \<Rightarrow> 'a heap \<times> bool list \<Rightarrow> bool" where
  "scan_inv R C f h0 s \<longleftrightarrow>
     length (snd s) = R * C \<and> brk (fst s) = brk h0 \<and>
     (\<forall>i<R * C. snd s ! i \<longrightarrow> snd s ! dest R C i) \<and>
     (\<forall>j<R * C. snd s ! dest R C j \<longrightarrow> cells (fst s) (f + dest R C j) = cells h0 (f + j)) \<and>
     (\<forall>i<R * C. \<not> snd s ! i \<longrightarrow> cells (fst s) (f + i) = cells h0 (f + i)) \<and>
     (\<forall>p. p < f \<or> f + R * C \<le> p \<longrightarrow> cells (fst s) p = cells h0 p)"

definition cyc_inv :: "nat \<Rightarrow> nat \<Rightarrow> nat \<Rightarrow> 'a heap \<Rightarrow> nat \<Rightarrow> nat \<Rightarrow> 'a heap \<times> bool list \<Rightarrow> bool" where
  "cyc_inv R C f h0 c a s \<longleftrightarrow>
     length (snd s) = R * C \<and> brk (fst s) = brk h0 \<and> c < R * C \<and> a < R * C \<and>
     \<not> snd s ! c \<and> (a = c \<or> snd s ! a) \<and>
     (\<forall>i<R * C. (i = c \<or> snd s ! i) \<and> i \<noteq> a \<longrightarrow> snd s ! dest R C i) \<and>
     cells (fst s) (f + c) = cells h0 (f + a) \<and>
     (\<forall>j<R * C. snd s ! dest R C j \<longrightarrow> cells (fst s) (f + dest R C j) = cells h0 (f + j)) \<and>
     (\<forall>i<R * C. \<not> snd s ! i \<and> i \<noteq> c \<longrightarrow> cells (fst s) (f + i) = cells h0 (f + i)) \<and>
     (\<forall>p. p < f \<or> f + R * C \<le> p \<longrightarrow> cells (fst s) p = cells h0 p)"

definition transposed :: "Matrix \<Rightarrow> 'a heap \<Rightarrow> 'a heap" where
  "transposed M h =
     h\<lparr>cells := (\<lambda>p. if data M \<le> p \<and> p < data M + nRows M * nCols M
                       then cells h (data M + dest (nCols M) (nRows M) (p - data M))
                       else cells h p)\<rparr>"

text \<open>
  A matrix is valid in a memory when its buffer is allocated and its dimensions fit an
  \<^verbatim>\<open>int\<close>. \<open>heap_of\<close> is the memory that holds the given values from address 0 on.
\<close>

definition valid :: "'a heap \<Rightarrow> Matrix \<Rightarrow> bool" where
  "valid h M \<longleftrightarrow>
     data M + nRows M * nCols M \<le> brk h \<and> nRows M \<le> 2147483647 \<and> nCols M \<le> 2147483647"

definition heap_of :: "'a::zero list \<Rightarrow> 'a heap" where
  "heap_of xs = \<lparr>cells = (\<lambda>p. if p < length xs then xs ! p else 0), brk = length xs\<rparr>"

text \<open>
  A sum computed as the loops compute it: starting from a first value, for
  \<open>sum_in_order\<close> from \<open>0\<close>, the terms are added one after the other in the arithmetic of
  the element type.
\<close>

definition accumulate :: "(nat \<Rightarrow> 'a) \<Rightarrow> nat \<Rightarrow> 'a \<Rightarrow> 'a::plus" where
  "accumulate f n a = fold (\<lambda>k acc. acc + f k) [0..<n] a"

definition sum_in_order :: "(nat \<Rightarrow> 'a) \<Rightarrow> nat \<Rightarrow> 'a::{zero,plus}" where
  "sum_in_order f n = accumulate f n 0"

text \<open>The element \<open>(r, c)\<close> of the matrix that an operation returns, if it returns one.\<close>

definition result_elem :: "(Matrix \<times> 'a heap) outcome \<Rightarrow> nat \<Rightarrow> nat \<Rightarrow> 'a option" where
  "result_elem res r c = (case res of Some (Inr (P, h')) \<Rightarrow> Some (elem h' P r c) | _ \<Rightarrow> None)"

text \<open>The three loops of \<^verbatim>\<open>multiply\<close> as functions on the loop state.\<close>

definition mul_link :: "nat \<Rightarrow> nat \<Rightarrow> nat \<Rightarrow> nat \<Rightarrow> nat \<Rightarrow> nat \<times> 'a::{plus,times} heap \<Rightarrow> nat \<times> 'a heap" where
  "mul_link rowPtr ob oC j link s =
     (fst s, poke (fst s) (cells (snd s) (fst s) +
        cells (snd s) (rowPtr + link) * cells (snd s) (ob + link * oC + j)) (snd s))"

definition mul_col :: "nat \<Rightarrow> nat \<Rightarrow> nat \<Rightarrow> nat \<Rightarrow> nat \<Rightarrow> nat \<times> 'a::{plus,times} heap \<Rightarrow> nat \<times> 'a heap" where
  "mul_col rowPtr ob oC K j s =
     (let s' = fold (mul_link rowPtr ob oC j) [0..<K] s in (fst s' + 1, snd s'))"

definition mul_row :: "Matrix \<Rightarrow> Matrix \<Rightarrow> nat \<Rightarrow> nat \<times> 'a::{plus,times} heap \<Rightarrow> nat \<times> 'a heap" where
  "mul_row M other i s =
     fold (mul_col (data M + i * nCols M) (data other) (nCols other) (nCols M)) [0..<nCols other] s"

text \<open>
  Cofactors and determinant of a 3 by 3 matrix, by the cyclic formula: the cofactor of
  position \<open>(i, j)\<close> is the 2 by 2 determinant of the rows and columns that follow \<open>i\<close>
  and \<open>j\<close> cyclically.
\<close>

definition cofactor3 :: "'a::ring heap \<Rightarrow> Matrix \<Rightarrow> nat \<Rightarrow> nat \<Rightarrow> 'a" where
  "cofactor3 h M i j =
     elem h M ((i + 1) mod 3) ((j + 1) mod 3) * elem h M ((i + 2) mod 3) ((j + 2) mod 3) -
     elem h M ((i + 1) mod 3) ((j + 2) mod 3) * elem h M ((i + 2) mod 3) ((j + 1) mod 3)"

definition det3 :: "'a::ring heap \<Rightarrow> Matrix \<Rightarrow> 'a" where
  "det3 h M = elem h M 0 0 * cofactor3 h M 0 0 + elem h M 0 1 * cofactor3 h M 0 1 +
              elem h M 0 2 * cofactor3 h M 0 2"

text \<open>An eigensolver that reports failure, for the places where none is called.\<close>

definition failing_solver :: "'a diagonalizer" where
  "failing_solver n a lwork =
     \<lparr>out_a = a, out_wr = [], out_wi = [], out_vl = [], out_work = 1, out_info = 1\<rparr>"


section \<open>The stages of \<^verbatim>\<open>diagonalize\<close>\<close>

text \<open>
  The memory when the eigensolver is called: the three result matrices and the scratch
  vector \<^verbatim>\<open>clone\<close> are allocated one after the other and the matrix is copied into
  \<^verbatim>\<open>clone\<close>. \<open>diag_lwork\<close> is the workspace size that the solver asks for,
  \<open>diag_result\<close> what the solver returns on the matrix with that workspace, and
  \<open>diag_stored\<close> the memory with these results written to the output arguments.
\<close>

definition diag_prepared :: "Matrix \<Rightarrow> 'a::zero heap \<Rightarrow> 'a heap" where
  "diag_prepared M h =
     (let n = nRows M;
          h1 = snd (allocate (n * 1) h);
          h2 = snd (allocate (n * 1) h1);
          h3 = snd (allocate (n * n) h2);
          h4 = snd (allocate (n * nCols M) h3)
      in copy (data M) (data M + n * nCols M) (brk h3) h4)"

definition diag_lwork :: "'a diagonalizer \<Rightarrow> Matrix \<Rightarrow> 'a heap \<Rightarrow> int" where
  "diag_lwork solver M h =
     truncate_real (out_work (solver (nRows M) (peek (data M) (nRows M * nRows M) h) (- 1)))"

definition diag_result :: "'a diagonalizer \<Rightarrow> Matrix \<Rightarrow> 'a heap \<Rightarrow> 'a geev_result" where
  "diag_result solver M h =
     solver (nRows M) (peek (data M) (nRows M * nRows M) h) (diag_lwork solver M h)"

definition diag_stored :: "'a diagonalizer \<Rightarrow> Matrix \<Rightarrow> 'a::zero heap \<Rightarrow> 'a heap" where
  "diag_stored solver M h =
     (let n = nRows M; res = diag_result solver M h
      in store (brk h + n + n) (out_vl res)
           (store (brk h + n) (out_wi res)
              (store (brk h) (out_wr res)
                 (store (brk h + n + n + n * n) (out_a res)
                    (snd (allocate (nat (diag_lwork solver M h)) (diag_prepared M h)))))))"

text \<open>
  The list built by the first loop over \<^verbatim>\<open>val\<close>, the list after \<^verbatim>\<open>std::sort\<close> and
  \<^verbatim>\<open>std::reverse\<close>, and one round of the second loop.
\<close>

definition diag_tuples :: "Matrix \<Rightarrow> Matrix \<Rightarrow> Matrix \<Rightarrow> nat \<Rightarrow> 'a heap \<Rightarrow> 'a eigenInfo list" where
  "diag_tuples evalsReal evalsImag evecs n h =
     map (\<lambda>val. \<lparr>valueReal = cells h (data evalsReal + val * nCols evalsReal + 0),
                  valueImag = cells h (data evalsImag + val * nCols evalsImag + 0),
                  vector = data evecs + val * nCols evecs\<rparr>) [0..<n]"

definition diag_ordered ::
  "('a eigenInfo list \<Rightarrow> 'a eigenInfo list) \<Rightarrow> SortOrder \<Rightarrow> 'a eigenInfo list \<Rightarrow> 'a eigenInfo list" where
  "diag_ordered sorter order tuples =
     (if order = Descending then rev (sorter tuples) else sorter tuples)"

definition diag_writeback ::
  "'a eigenInfo list \<Rightarrow> Matrix \<Rightarrow> Matrix \<Rightarrow> nat \<Rightarrow> nat \<Rightarrow> nat \<Rightarrow> 'a heap \<Rightarrow> 'a heap" where
  "diag_writeback ts evalsReal evalsImag scratch nc val h =
     copy (vector (ts ! val)) (vector (ts ! val) + nc) (scratch + val * nc)
       (poke (data evalsImag + val) (valueImag (ts ! val))
          (poke (data evalsReal + val) (valueReal (ts ! val)) h))"

text \<open>
  What \<^verbatim>\<open>diagonalize\<close> relies on from the eigensolver: the workspace size it asks for
  is a non-negative \<^verbatim>\<open>int\<close>, and it fills each output argument completely. What it
  relies on from \<^verbatim>\<open>std::sort\<close>: the result is a rearrangement of the argument in
  which no entry is followed by one that \<^verbatim>\<open>eigenInfo::operator<\<close> puts before it, that
  is, by one with a smaller \<^verbatim>\<open>valueReal\<close>; nothing is said about the order of entries
  with equal keys.
\<close>

definition sorts_by_valueReal :: "('a::ord eigenInfo list \<Rightarrow> 'a eigenInfo list) \<Rightarrow> bool" where
  "sorts_by_valueReal sorter \<longleftrightarrow>
     (\<forall>xs. mset (sorter xs) = mset xs \<and>
           sorted_wrt (\<lambda>x y. \<not> valueReal y < valueReal x) (sorter xs))"

definition well_behaved :: "'a diagonalizer \<Rightarrow> Matrix \<Rightarrow> 'a heap \<Rightarrow> bool" where
  "well_behaved solver M h \<longleftrightarrow>
     0 \<le> diag_lwork solver M h \<and> diag_lwork solver M h \<le> 2147483647 \<and>
     length (out_a (diag_result solver M h)) = nRows M * nRows M \<and>
     length (out_wr (diag_result solver M h)) = nRows M \<and>
     length (out_wi (diag_result solver M h)) = nRows M \<and>
     length (out_vl (diag_result solver M h)) = nRows M * nRows M"

text \<open>
  The eigensolver's answer as a list of triples (real part, imaginary part,
  eigenvector), where eigenvector \<open>k\<close> is the \<open>k\<close>-th block of \<open>n\<close> values of \<^verbatim>\<open>vl\<close>, and
  the triples that the three returned matrices hold, eigenvector \<open>k\<close> being column \<open>k\<close>
  of the third matrix.
\<close>

definition eigen_triples :: "'a geev_result \<Rightarrow> nat \<Rightarrow> ('a \<times> 'a \<times> 'a list) list" where
  "eigen_triples res n =
     map (\<lambda>k. (out_wr res ! k, out_wi res ! k, take n (drop (k * n) (out_vl res)))) [0..<n]"

definition returned_triples ::
  "(Matrix \<times> Matrix \<times> Matrix) \<times> 'a heap \<Rightarrow> ('a \<times> 'a \<times> 'a list) list" where
  "returned_triples r =
     (case r of ((evalsReal, evalsImag, evecs), h) \<Rightarrow>
        map (\<lambda>k. (elem h evalsReal k 0, elem h evalsImag k 0,
                   map (\<lambda>j. elem h evecs j k) [0..<nRows evecs]))
          [0..<nRows evalsReal])"

text \<open>
  A sequence of eigenvalues in the requested order: weakly, when no value is followed by
  one that belongs before it, and strictly, when every value is followed only by values
  that belong after it; and the eigenvalues of an outcome of \<^verbatim>\<open>diagonalize\<close>.
\<close>

definition weakly_ordered :: "SortOrder \<Rightarrow> 'a::ord list \<Rightarrow> bool" where
  "weakly_ordered order xs =
     (if order = Descending then sorted_wrt (\<lambda>x y. \<not> x < y) xs
      else sorted_wrt (\<lambda>x y. \<not> y < x) xs)"

definition strictly_ordered :: "SortOrder \<Rightarrow> 'a::ord list \<Rightarrow> bool" where
  "strictly_ordered order xs =
     (if order = Descending then sorted_wrt (\<lambda>x y. x > y) xs else sorted_wrt (\<lambda>x y. x < y) xs)"

definition returned_eigenvalues ::
  "((Matrix \<times> Matrix \<times> Matrix) \<times> 'a heap) outcome \<Rightarrow> 'a list option" where
  "returned_eigenvalues r =
     (case r of Some (Inr x) \<Rightarrow> Some (map fst (returned_triples x)) | _ \<Rightarrow> None)"

text \<open>
  An eigensolver for diagonal matrices: the eigenvalues of a diagonal matrix are its
  diagonal entries, and the unit vectors are eigenvectors.
\<close>

definition diagonal_solver :: "real diagonalizer" where
  "diagonal_solver n a lwork =
     \<lparr>out_a = a, out_wr = map (\<lambda>k. a ! (k * n + k)) [0..<n], out_wi = replicate n 0,
      out_vl = map (\<lambda>i. if i div n = i mod n then 1 else 0) [0..<n * n],
      out_work = real (4 * n), out_info = 0\<rparr>"


section \<open>The stages of \<^verbatim>\<open>applyOperation\<close>\<close>

text \<open>
  What \<^verbatim>\<open>assertSymmetric\<close> checks: no element below the diagonal differs from its
  mirror image by more than the threshold.
\<close>

definition symmetric_within :: "'a \<Rightarrow> Matrix \<Rightarrow> 'a::{abs,minus,ord} heap \<Rightarrow> bool" where
  "symmetric_within threshold M h =
     list_all (\<lambda>rw. list_all (\<lambda>cl. \<not> \<bar>elem h M rw cl - elem h M cl rw\<bar> > threshold)
                        [0..<rw]) [0..<nRows M]"

text \<open>One round of the loop of \<^verbatim>\<open>applyOperation\<close> over the rows of the transposed eigenvectors.\<close>

definition scale_row :: "Matrix \<Rightarrow> Matrix \<Rightarrow> nat \<Rightarrow> nat \<Rightarrow> 'a::times heap \<Rightarrow> 'a heap" where
  "scale_row evalsReal evecsT nc rw h =
     for_each (data evecsT + rw * nc) (data evecsT + (rw + 1) * nc)
       (\<lambda>val. val * cells h (data evalsReal + rw * nCols evalsReal + 0)) h"

text \<open>
  On a list of eigen-triples: whether some imaginary part exceeds the threshold, and the
  element \<open>(r, c)\<close> of \<open>V * diag (fn lambda) * V\<^sup>T\<close>, where \<open>V\<close> has the eigenvectors as
  its columns, computed as \<^verbatim>\<open>applyOperation\<close> computes it: each element of \<open>V\<^sup>T\<close> is
  multiplied by the transformed eigenvalue of its row, and the product with \<open>V\<close> is
  summed in the order of the list.
\<close>

definition complex_found :: "'a \<Rightarrow> ('a::{abs,ord} \<times> 'a \<times> 'a list) list \<Rightarrow> bool" where
  "complex_found threshold tr = list_ex (\<lambda>t. \<bar>fst (snd t)\<bar> > threshold) tr"

definition recomposed ::
  "('a \<Rightarrow> 'a) \<Rightarrow> ('a \<times> 'a \<times> 'a list) list \<Rightarrow> nat \<Rightarrow> nat \<Rightarrow> 'a::{zero,plus,times}" where
  "recomposed fn tr r c =
     sum_in_order
       (\<lambda>k. (snd (snd (tr ! k)) ! r) * ((snd (snd (tr ! k)) ! c) * fn (fst (tr ! k))))
       (length tr)"

text \<open>An outcome that is a result, not an error and not a computation without end.\<close>

definition returned :: "'r outcome \<Rightarrow> bool" where
  "returned r = (case r of Some (Inr x) \<Rightarrow> True | _ \<Rightarrow> False)"


section \<open>Slices as views\<close>

text \<open>
  A slice is a view of a matrix when it has a positive stride and its end lies a whole
  number of strides after its beginning, as for the slices that \<^verbatim>\<open>row\<close> and \<^verbatim>\<open>col\<close>
  return. \<open>slice_size\<close> is its number of elements and \<open>on_slice\<close> holds for the addresses of
  its elements.
\<close>

definition wf_slice :: "sliceIterator \<Rightarrow> bool" where
  "wf_slice s \<longleftrightarrow>
     0 < stride s \<and> beginp s \<le> endp s \<and> (endp s - beginp s) mod stride s = 0"

definition slice_size :: "sliceIterator \<Rightarrow> nat" where
  "slice_size s = (endp s - beginp s) div stride s"

definition on_slice :: "sliceIterator \<Rightarrow> nat \<Rightarrow> bool" where
  "on_slice s q \<longleftrightarrow> beginp s \<le> q \<and> q < endp s \<and> (q - beginp s) mod stride s = 0"

text \<open>The value at an address in the memory that an operation leaves, if it returns.\<close>

definition result_cell :: "'a heap outcome \<Rightarrow> nat \<Rightarrow> 'a option" where
  "result_cell res q = (case res of Some (Inr h') \<Rightarrow> Some (cells h' q) | _ \<Rightarrow> None)"


section \<open>Double-precision arithmetic\<close>

text \<open>
  The element type \<^verbatim>\<open>double\<close> on its finite normal numbers: a value is a real number, and
  every arithmetic operation rounds the exact result to the nearest number with 53
  significant bits, a tie to the one whose last bit is even. Comparison, negation and
  the absolute value are exact. Overflow, subnormal numbers, the sign of zero,
  infinities and NaN are outside this description, which is used only at inputs where
  none of them occurs.
\<close>

definition round_even :: "real \<Rightarrow> int" where
  "round_even y =
     (let f = \<lfloor>y\<rfloor> in
      if y - of_int f < 1 / 2 then f
      else if 1 / 2 < y - of_int f then f + 1
      else if even f then f else f + 1)"

definition round_binary64 :: "real \<Rightarrow> real" where
  "round_binary64 x =
     (if x = 0 then 0
      else let u = 2 powr (of_int \<lfloor>log 2 \<bar>x\<bar>\<rfloor> - 52)
           in of_int (round_even (x / u)) * u)"

datatype binary64 = Binary64 (value_of: real)

instantiation binary64 :: "{zero,one,plus,minus,uminus,times,inverse,abs,ord}"
begin

definition zero_binary64_def: "0 = Binary64 0"

definition one_binary64_def: "1 = Binary64 1"

definition plus_binary64_def: "a + b = Binary64 (round_binary64 (value_of a + value_of b))"

definition minus_binary64_def: "a - b = Binary64 (round_binary64 (value_of a - value_of b))"

definition uminus_binary64_def: "- a = Binary64 (- value_of a)"

definition times_binary64_def: "a * b = Binary64 (round_binary64 (value_of a * value_of b))"

definition divide_binary64_def: "a div b = Binary64 (round_binary64 (value_of a / value_of b))"

definition inverse_binary64_def: "inverse a = Binary64 (round_binary64 (1 / value_of a))"

definition abs_binary64_def: "\<bar>a\<bar> = Binary64 \<bar>value_of a\<bar>"

definition less_binary64_def: "a < b \<longleftrightarrow> value_of a < value_of b"

definition less_eq_binary64_def: "a \<le> b \<longleftrightarrow> value_of a \<le> value_of b"

instance ..


end

section \<open>Correctness of the in-place transposition\<close>

lemma smod_nonneg: "0 \<le> k \<Longrightarrow> 0 < l \<Longrightarrow> (k::int) smod l = k mod l"
  by (cases "k = 0") (simp_all add: smod_int_alt_def sgn_if)

lemma dest_rc: "r < R \<Longrightarrow> c < C \<Longrightarrow> dest R C (r * C + c) = c * R + r"
  by (simp add: dest_def)

lemma rc_less: "r < R \<Longrightarrow> c < C \<Longrightarrow> r * C + c < R * (C::nat)"
proof -
  assume r: "r < R" and c: "c < C"
  have "r * C + c < r * C + C" using c by simp
  also have "\<dots> = (r + 1) * C" by (simp add: algebra_simps)
  also have "\<dots> \<le> R * C" using r by (intro mult_le_mono1) simp
  finally show ?thesis .
qed

lemma index_split:
  assumes "i < R * (C::nat)"
  obtains r c where "r < R" "c < C" "i = r * C + c"
proof -
  from assms have C: "0 < C" by (cases C) auto
  have "i div C < R" using assms C by (simp add: less_mult_imp_div_less)
  moreover have "i mod C < C" using C by simp
  moreover have "i = (i div C) * C + i mod C" by simp
  ultimately show ?thesis using that by blast
qed

lemma dest_less: "i < R * C \<Longrightarrow> dest R C i < R * C"
proof -
  assume a: "i < R * C"
  then obtain r c where rc: "r < R" "c < C" "i = r * C + c" by (rule index_split)
  have "c * R + r < C * R" using rc by (intro rc_less)
  moreover have "dest R C i = c * R + r" using rc by (simp add: dest_rc)
  ultimately show ?thesis by (simp add: mult.commute)
qed

lemma dest_inj: "i < R * C \<Longrightarrow> j < R * C \<Longrightarrow> dest R C i = dest R C j \<Longrightarrow> i = j"
proof -
  assume a: "i < R * C" "j < R * C" and e: "dest R C i = dest R C j"
  obtain r c where rc: "r < R" "c < C" "i = r * C + c" using a(1) by (rule index_split)
  obtain r' c' where rc': "r' < R" "c' < C" "j = r' * C + c'" using a(2) by (rule index_split)
  from e have e': "c * R + r = c' * R + r'" using rc rc' by (simp add: dest_rc)
  have "(c * R + r) div R = c" "(c' * R + r') div R = c'" using rc rc' by simp_all
  then have m: "c = c'" using e' by simp
  with e' have d: "r = r'" by simp
  show "i = j" using m d rc rc' by simp
qed

lemma dest_last: "0 < R \<Longrightarrow> 0 < C \<Longrightarrow> dest R C (R * C - 1) = R * C - 1"
proof -
  assume "0 < R" "0 < C"
  then obtain R' C' where R: "R = Suc R'" and C: "C = Suc C'"
    by (metis Suc_pred)
  have 1: "R * C - 1 = R' * C + C'" by (simp add: R C)
  have "dest R C (R' * C + C') = C' * R + R'" by (rule dest_rc) (simp_all add: R C)
  also have "\<dots> = R * C - 1" by (simp add: R C algebra_simps)
  finally show ?thesis using 1 by simp
qed

lemma step_dest:
  assumes "i < R * C"
  shows "(if int i = int (R * C) - 1 then int (R * C) - 1 else (int R * int i) smod (int (R * C) - 1)) = int (dest R C i)"
proof -
  from assms have C: "0 < C" by (cases C) auto
  have R: "0 < R" using assms by (cases R) auto
  obtain r c where rc: "r < R" "c < C" "i = r * C + c" using assms by (rule index_split)
  have d: "dest R C i = c * R + r" using rc by (simp add: dest_rc)
  have dl: "dest R C i < R * C" using assms by (rule dest_less)
  show ?thesis
  proof (cases "i = R * C - 1")
    case True
    then have "dest R C i = i" using dest_last[OF R C] by simp
    moreover have "int i = int (R * C) - 1" using True assms by linarith
    ultimately show ?thesis by simp
  next
    case False
    then have ne: "int i \<noteq> int (R * C) - 1" using assms by linarith
    have "dest R C i \<noteq> R * C - 1"
    proof
      assume "dest R C i = R * C - 1"
      then have "dest R C i = dest R C (R * C - 1)" using dest_last[OF R C] by simp
      then have "i = R * C - 1" using dest_inj[of i R C "R * C - 1"] assms by simp
      then show False using False by simp
    qed
    then have lt: "int (c * R + r) < int (R * C) - 1" using dl d by linarith
    have "int R * int i = int r * (int (R * C) - 1) + int (c * R + r)"
      by (simp add: rc algebra_simps)
    then have "(int R * int i) mod (int (R * C) - 1) = int (c * R + r) mod (int (R * C) - 1)"
      by simp
    also have "\<dots> = int (c * R + r)" using lt by (intro mod_pos_pos_trivial) linarith+
    finally have "(int R * int i) mod (int (R * C) - 1) = int (c * R + r)" .
    moreover have "0 < int (R * C) - 1" using lt by linarith
    ultimately show ?thesis using ne d by (simp add: smod_nonneg)
  qed
qed

lemma frontier_fresh:
  assumes "cyc_inv R C f h0 c a s"
  shows "\<not> snd s ! dest R C a"
proof
  let ?L = "R * C" and ?vis = "snd s"
  assume v: "?vis ! dest R C a"
  define V where "V = {i. i < ?L \<and> ?vis ! i}"
  define W where "W = (insert c V) - {a}"
  from assms have c: "c < ?L" "\<not> ?vis ! c" and a: "a < ?L" "a = c \<or> ?vis ! a"
    and cl: "\<forall>i<?L. (i = c \<or> ?vis ! i) \<and> i \<noteq> a \<longrightarrow> ?vis ! dest R C i"
    by (auto simp: cyc_inv_def)
  have finV: "finite V" by (simp add: V_def)
  have cV: "c \<notin> V" using c by (simp add: V_def)
  have aW: "a \<in> insert c V" using a by (auto simp: V_def)
  have cardW: "card W = card V"
  proof -
    have "card W = card (insert c V) - 1" unfolding W_def using aW finV by (simp add: card_Diff_singleton)
    also have "\<dots> = card V" using cV finV by simp
    finally show ?thesis .
  qed
  have Wsub: "W \<subseteq> {..<?L}" using c by (auto simp: W_def V_def)
  have inj: "inj_on (dest R C) {..<?L}"
    by (rule inj_onI) (auto intro: dest_inj)
  have img: "dest R C ` W \<subseteq> V"
  proof
    fix y assume "y \<in> dest R C ` W"
    then obtain i where i: "i \<in> W" "y = dest R C i" by auto
    then have "i < ?L" "(i = c \<or> ?vis ! i)" "i \<noteq> a" using c by (auto simp: W_def V_def)
    then have "?vis ! dest R C i" using cl by blast
    moreover have "dest R C i < ?L" using \<open>i < ?L\<close> by (rule dest_less)
    ultimately show "y \<in> V" using i by (simp add: V_def)
  qed
  have "card (dest R C ` W) = card W"
    by (rule card_image) (rule inj_on_subset[OF inj Wsub])
  then have "dest R C ` W = V" using img finV cardW by (simp add: card_subset_eq)
  moreover have "dest R C a \<in> V" using v a dest_less[of a R C] by (simp add: V_def)
  ultimately obtain w where w: "w \<in> W" "dest R C w = dest R C a" by (metis imageE)
  then have "w = a" using dest_inj[of w R C a] Wsub a by auto
  then show False using w by (simp add: W_def)
qed

lemma cyc_inv_step:
  assumes inv: "cyc_inv R C f h0 c a (h, vis)" and ne: "dest R C a \<noteq> c"
  shows "cyc_inv R C f h0 c (dest R C a) (swap_cells (f + dest R C a) (f + c) h, vis[dest R C a := True])"
proof -
  let ?L = "R * C" and ?a' = "dest R C a"
  have fresh: "\<not> vis ! ?a'" using frontier_fresh[OF inv] by simp
  from inv have len: "length vis = ?L" and c: "c < ?L" "\<not> vis ! c" and a: "a < ?L" "a = c \<or> vis ! a"
    and cl: "\<forall>i<?L. (i = c \<or> vis ! i) \<and> i \<noteq> a \<longrightarrow> vis ! dest R C i"
    and hc: "cells h (f + c) = cells h0 (f + a)"
    and moved: "\<forall>j<?L. vis ! dest R C j \<longrightarrow> cells h (f + dest R C j) = cells h0 (f + j)"
    and untouched: "\<forall>i<?L. \<not> vis ! i \<and> i \<noteq> c \<longrightarrow> cells h (f + i) = cells h0 (f + i)"
    and frame: "\<forall>p. p < f \<or> f + ?L \<le> p \<longrightarrow> cells h p = cells h0 p"
    and b: "brk h = brk h0"
    by (auto simp: cyc_inv_def)
  have a': "?a' < ?L" using a(1) by (rule dest_less)
  have ha': "cells h (f + ?a') = cells h0 (f + ?a')" using untouched a' fresh ne by blast
  have nth: "\<And>i. i < ?L \<Longrightarrow> vis[?a' := True] ! i = (i = ?a' \<or> vis ! i)"
    using len a' by (auto simp: nth_list_update)
  have cellsw: "\<And>p. cells (swap_cells (f + ?a') (f + c) h) p =
      (if p = f + c then cells h0 (f + ?a') else if p = f + ?a' then cells h0 (f + a) else cells h p)"
    using ha' hc by (auto simp: swap_cells_def)
  show ?thesis
    unfolding cyc_inv_def fst_conv snd_conv
  proof (intro conjI allI impI)
    show "length (vis[?a' := True]) = ?L" using len by simp
    show "brk (swap_cells (f + ?a') (f + c) h) = brk h0" using b by (simp add: swap_cells_def)
    show "c < ?L" by fact
    show "?a' < ?L" by fact
    show "\<not> vis[?a' := True] ! c" using c ne by (simp add: nth)
    show "?a' = c \<or> vis[?a' := True] ! ?a'" using a' by (simp add: nth)
  next
    fix i assume i: "i < ?L" "(i = c \<or> vis[?a' := True] ! i) \<and> i \<noteq> ?a'"
    then have di: "dest R C i < ?L" by (simp add: dest_less)
    show "vis[?a' := True] ! dest R C i"
    proof (cases "i = a")
      case True then show ?thesis using di by (simp add: nth)
    next
      case False
      then have "vis ! dest R C i" using cl i by (auto simp: nth)
      then show ?thesis using di by (simp add: nth)
    qed
  next
    show "cells (swap_cells (f + ?a') (f + c) h) (f + c) = cells h0 (f + ?a')" by (simp add: cellsw)
  next
    fix j assume j: "j < ?L" "vis[?a' := True] ! dest R C j"
    then have dj: "dest R C j < ?L" by (simp add: dest_less)
    show "cells (swap_cells (f + ?a') (f + c) h) (f + dest R C j) = cells h0 (f + j)"
    proof (cases "dest R C j = ?a'")
      case True
      then have "j = a" using dest_inj[of j R C a] j a by simp
      then show ?thesis using ne by (simp add: cellsw)
    next
      case False
      then have vj: "vis ! dest R C j" using j dj by (simp add: nth)
      then have "dest R C j \<noteq> c" using c by auto
      then show ?thesis using False vj moved j by (simp add: cellsw)
    qed
  next
    fix i assume i: "i < ?L" "\<not> vis[?a' := True] ! i \<and> i \<noteq> c"
    then have "i \<noteq> ?a'" "\<not> vis ! i" by (auto simp: nth)
    then show "cells (swap_cells (f + ?a') (f + c) h) (f + i) = cells h0 (f + i)"
      using i untouched by (simp add: cellsw)
  next
    fix p assume p: "p < f \<or> f + ?L \<le> p"
    then have "p \<noteq> f + c" "p \<noteq> f + ?a'" using c a' by auto
    moreover have "cells h p = cells h0 p" using frame p by blast
    ultimately show "cells (swap_cells (f + ?a') (f + c) h) p = cells h0 p" by (simp add: cellsw)
  qed
qed

lemma cyc_inv_close:
  assumes inv: "cyc_inv R C f h0 c a (h, vis)" and eq: "dest R C a = c"
  shows "scan_inv R C f h0 (swap_cells (f + c) (f + c) h, vis[c := True])"
proof -
  let ?L = "R * C"
  from inv have len: "length vis = ?L" and c: "c < ?L" "\<not> vis ! c" and a: "a < ?L" "a = c \<or> vis ! a"
    and cl: "\<forall>i<?L. (i = c \<or> vis ! i) \<and> i \<noteq> a \<longrightarrow> vis ! dest R C i"
    and hc: "cells h (f + c) = cells h0 (f + a)"
    and moved: "\<forall>j<?L. vis ! dest R C j \<longrightarrow> cells h (f + dest R C j) = cells h0 (f + j)"
    and untouched: "\<forall>i<?L. \<not> vis ! i \<and> i \<noteq> c \<longrightarrow> cells h (f + i) = cells h0 (f + i)"
    and frame: "\<forall>p. p < f \<or> f + ?L \<le> p \<longrightarrow> cells h p = cells h0 p"
    and b: "brk h = brk h0"
    by (auto simp: cyc_inv_def)
  have nth: "\<And>i. i < ?L \<Longrightarrow> vis[c := True] ! i = (i = c \<or> vis ! i)"
    using len c by (auto simp: nth_list_update)
  have sw: "swap_cells (f + c) (f + c) h = h" by (simp add: swap_cells_def)
  show ?thesis
    unfolding scan_inv_def fst_conv snd_conv sw
  proof (intro conjI allI impI)
    show "length (vis[c := True]) = ?L" using len by simp
    show "brk h = brk h0" by fact
  next
    fix i assume i: "i < ?L" "vis[c := True] ! i"
    then have di: "dest R C i < ?L" by (simp add: dest_less)
    show "vis[c := True] ! dest R C i"
    proof (cases "i = a")
      case True then show ?thesis using di eq by (simp add: nth)
    next
      case False
      then have "vis ! dest R C i" using cl i by (auto simp: nth)
      then show ?thesis using di by (simp add: nth)
    qed
  next
    fix j assume j: "j < ?L" "vis[c := True] ! dest R C j"
    then have dj: "dest R C j < ?L" by (simp add: dest_less)
    show "cells h (f + dest R C j) = cells h0 (f + j)"
    proof (cases "dest R C j = c")
      case True
      then have "j = a" using dest_inj[of j R C a] j a eq by simp
      then show ?thesis using hc True by simp
    next
      case False
      then show ?thesis using j dj moved by (simp add: nth)
    qed
  next
    fix i assume i: "i < ?L" "\<not> vis[c := True] ! i"
    then show "cells h (f + i) = cells h0 (f + i)" using untouched by (simp add: nth)
  next
    fix p assume "p < f \<or> f + ?L \<le> p"
    then show "cells h p = cells h0 p" using frame by blast
  qed
qed

lemma int_ok_nat: "int_ok (int k) \<longleftrightarrow> k \<le> 2147483647"
  by (auto simp: int_ok_def INT_MAX_def)

lemma unvisited_card_less:
  assumes "length vis = L" "k < L" "\<not> vis ! k"
  shows "card {i. i < L \<and> \<not> vis[k := True] ! i} < card {i. i < L \<and> \<not> vis ! i}"
proof (rule psubset_card_mono)
  show "finite {i. i < L \<and> \<not> vis ! i}" by simp
  have "k \<in> {i. i < L \<and> \<not> vis ! i}" using assms by simp
  moreover have "k \<notin> {i. i < L \<and> \<not> vis[k := True] ! i}" using assms by simp
  moreover have "{i. i < L \<and> \<not> vis[k := True] ! i} \<subseteq> {i. i < L \<and> \<not> vis ! i}"
    using assms by (auto simp: nth_list_update split: if_splits)
  ultimately show "{i. i < L \<and> \<not> vis[k := True] ! i} \<subset> {i. i < L \<and> \<not> vis ! i}" by blast
qed

lemma cycle_loop_ok:
  assumes "cyc_inv R C f h0 c a (h, vis)"
    and "R * (R * C) \<le> 2147483647"
    and "\<forall>i<R * C. vis0 ! i \<longrightarrow> vis ! i"
  shows "\<exists>s'. cycle_loop f (int R) (int (R * C) - 1) (f + c) (int a) (h, vis) = Some (Inr s') \<and>
           scan_inv R C f h0 s' \<and> snd s' ! c \<and> (\<forall>i<R * C. vis0 ! i \<longrightarrow> snd s' ! i)"
  using assms
proof (induction "card {i. i < R * C \<and> \<not> vis ! i}" arbitrary: a h vis rule: less_induct)
  case less
  let ?L = "R * C" and ?a' = "dest R C a"
  note inv = less.prems(1) and bound = less.prems(2) and mono = less.prems(3)
  from inv have len: "length vis = ?L" and c: "c < ?L" and a: "a < ?L"
    by (auto simp: cyc_inv_def)
  have a': "?a' < ?L" using a by (rule dest_less)
  have fresh: "\<not> vis ! ?a'" using frontier_fresh[OF inv] by simp
  have "R * a \<le> R * (R * C)" using a by (intro mult_le_mono2) simp
  then have "R * a \<le> 2147483647" using bound by linarith
  then have "int_ok (int (R * a))" by (simp only: int_ok_nat)
  then have ok: "int_ok (int R * int a)" by simp
  have nz: "int a \<noteq> int ?L - 1 \<Longrightarrow> int ?L - 1 \<noteq> 0" using a by linarith
  have st: "(if int a = int ?L - 1 then int ?L - 1 else (int R * int a) smod (int ?L - 1)) = int ?a'"
    using a by (rule step_dest)
  have c1: "\<not> (int a \<noteq> int ?L - 1 \<and> \<not> int_ok (int R * int a))" using ok by simp
  have c2: "\<not> (int a \<noteq> int ?L - 1 \<and> int ?L - 1 = 0)" using nz by blast
  have c3: "\<not> (int ?a' < 0 \<or> int (length vis) \<le> int ?a')" using a' len by (simp only: of_nat_less_0_iff of_nat_le_iff) simp
  have unf: "cycle_loop f (int R) (int ?L - 1) (f + c) (int a) (h, vis) =
      (if f + ?a' \<noteq> f + c
       then cycle_loop f (int R) (int ?L - 1) (f + c) (int ?a') (swap_cells (f + ?a') (f + c) h, vis[?a' := True])
       else Some (Inr (swap_cells (f + ?a') (f + c) h, vis[?a' := True])))"
    apply (subst cycle_loop.simps)
    apply (simp only: st Let_def fst_conv snd_conv c1 c2 c3 if_False nat_int)
    done
  show ?case
  proof (cases "?a' = c")
    case True
    have "scan_inv R C f h0 (swap_cells (f + c) (f + c) h, vis[c := True])"
      using inv True by (rule cyc_inv_close)
    moreover have "vis[c := True] ! c" using len c by simp
    moreover have "\<forall>i<?L. vis0 ! i \<longrightarrow> vis[c := True] ! i"
      using mono len c by (auto simp: nth_list_update)
    ultimately show ?thesis using True unf by simp
  next
    case False
    let ?h1 = "swap_cells (f + ?a') (f + c) h" and ?v1 = "vis[?a' := True]"
    have inv1: "cyc_inv R C f h0 c ?a' (?h1, ?v1)" using inv False by (rule cyc_inv_step)
    have dec: "card {i. i < ?L \<and> \<not> ?v1 ! i} < card {i. i < ?L \<and> \<not> vis ! i}"
      using len a' fresh by (rule unvisited_card_less)
    have mono1: "\<forall>i<?L. vis0 ! i \<longrightarrow> ?v1 ! i"
      using mono len a' by (auto simp: nth_list_update)
    from less.hyps[OF dec inv1 bound mono1] show ?thesis using False unf by simp
  qed
qed

lemma cycle_scan_ok:
  assumes "scan_inv R C f h0 (h, vis)"
    and "R * (R * C) \<le> 2147483647"
    and "\<forall>i. 0 < i \<and> i \<le> k \<longrightarrow> vis ! i"
    and "k < R * C"
  shows "\<exists>s'. cycle_scan f (f + R * C) (int R) (int (R * C) - 1) (f + k) (h, vis) = Some (Inr s') \<and>
           scan_inv R C f h0 s' \<and> (\<forall>i. 0 < i \<and> i < R * C \<longrightarrow> snd s' ! i)"
  using assms
proof (induction "R * C - k" arbitrary: k h vis rule: less_induct)
  case less
  let ?L = "R * C"
  note inv = less.prems(1) and bound = less.prems(2) and vis = less.prems(3) and k = less.prems(4)
  from inv have len: "length vis = ?L" by (simp add: scan_inv_def)
  have R: "0 < R" using k by (cases R) auto
  show ?case
  proof (cases "k + 1 = ?L")
    case True
    have "cycle_scan f (f + ?L) (int R) (int ?L - 1) (f + k) (h, vis) = Some (Inr (h, vis))"
      by (subst cycle_scan.simps) (simp add: True[symmetric])
    moreover have "\<forall>i. 0 < i \<and> i < ?L \<longrightarrow> vis ! i" using vis True by auto
    ultimately show ?thesis using inv by simp
  next
    case False
    then have k1: "k + 1 < ?L" using k by simp
    have dec: "?L - (k + 1) < ?L - k" using k by simp
    have sk: "f + k + 1 - f = k + 1" by simp
    show ?thesis
    proof (cases "vis ! (k + 1)")
      case True
      have unf: "cycle_scan f (f + ?L) (int R) (int ?L - 1) (f + k) (h, vis) =
          cycle_scan f (f + ?L) (int R) (int ?L - 1) (f + (k + 1)) (h, vis)"
        apply (subst cycle_scan.simps)
        using False k1 True len apply (simp add: Let_def)
        done
      have vis1: "\<forall>i. 0 < i \<and> i \<le> k + 1 \<longrightarrow> vis ! i" using vis True
        by (metis Suc_eq_plus1 le_SucE)
      from less.hyps[OF dec inv bound vis1 k1] show ?thesis using unf by simp
    next
      case nv: False
      have "1 * (R * C) \<le> R * (R * C)" using R by (intro mult_le_mono1) simp
      then have "k + 1 \<le> 2147483647" using k1 bound by linarith
      then have okc: "int_ok (int (k + 1))" by (simp only: int_ok_nat)
      have cinv: "cyc_inv R C f h0 (k + 1) (k + 1) (h, vis)"
        using inv k1 nv unfolding cyc_inv_def scan_inv_def by auto
      from cycle_loop_ok[OF cinv bound, of vis]
      obtain s' where s': "cycle_loop f (int R) (int ?L - 1) (f + (k + 1)) (int (k + 1)) (h, vis) = Some (Inr s')"
        "scan_inv R C f h0 s'" "snd s' ! (k + 1)" "\<forall>i<?L. vis ! i \<longrightarrow> snd s' ! i"
        by auto
      have unf: "cycle_scan f (f + ?L) (int R) (int ?L - 1) (f + k) (h, vis) =
          cycle_scan f (f + ?L) (int R) (int ?L - 1) (f + (k + 1)) s'"
        apply (subst cycle_scan.simps)
        using False k1 nv len okc s'(1) apply (simp add: Let_def add.assoc)
        done
      have vis1: "\<forall>i. 0 < i \<and> i \<le> k + 1 \<longrightarrow> snd s' ! i"
      proof (intro allI impI)
        fix i assume i: "0 < i \<and> i \<le> k + 1"
        show "snd s' ! i"
        proof (cases "i = k + 1")
          case True then show ?thesis using s'(3) by simp
        next
          case False
          then have "i \<le> k" using i by simp
          then have "vis ! i" "i < ?L" using vis i k by auto
          then show ?thesis using s'(4) by simp
        qed
      qed
      obtain h' vis' where hv: "s' = (h', vis')" by (cases s')
      from less.hyps[OF dec s'(2)[unfolded hv] bound vis1[unfolded hv snd_conv] k1]
      show ?thesis using unf hv by simp
    qed
  qed
qed

lemma sdiv_nonneg: "0 \<le> k \<Longrightarrow> 0 < l \<Longrightarrow> (k::int) sdiv l = k div l"
  by (cases "k = 0") (simp_all add: signed_divide_int_def sgn_if)

lemma dest_dest: "i < R * C \<Longrightarrow> dest C R (dest R C i) = i"
proof -
  assume "i < R * C"
  then obtain r c where rc: "r < R" "c < C" "i = r * C + c" by (rule index_split)
  then show ?thesis by (simp add: dest_rc)
qed

lemma transposeMemoryInPlace_ok:
  assumes R: "0 < R" and C: "0 < C" and bound: "R * (R * C) \<le> 2147483647"
  shows "\<exists>h'. transposeMemoryInPlace f (f + R * C) (int C) h = ok h' \<and> brk h' = brk h \<and>
           (\<forall>i<R * C. cells h' (f + dest R C i) = cells h (f + i)) \<and>
           (\<forall>p. p < f \<or> f + R * C \<le> p \<longrightarrow> cells h' p = cells h p)"
proof -
  let ?L = "R * C"
  have L: "0 < ?L" using R C by simp
  have "1 * ?L \<le> R * ?L" using R by (intro mult_le_mono1) simp
  then have Lb: "?L \<le> 2147483647" using bound by linarith
  have "1 * R \<le> ?L" using C by (simp add: mult.commute)
  then have Rb: "R \<le> 2147483647" using Lb by linarith
  have len: "int (f + ?L) - int f = int ?L" by simp
  have okL: "int_ok (int ?L)" using Lb by (simp only: int_ok_nat)
  have ok1: "int_ok (int ?L - 1)"
  proof -
    define l where "l = int ?L"
    have "0 \<le> l" by (simp add: l_def)
    moreover have "int_ok l" using okL by (simp only: l_def)
    ultimately have "int_ok (l - 1)" unfolding int_ok_def INT_MAX_def by linarith
    then show ?thesis by (simp only: l_def)
  qed
  have dv: "int ?L sdiv int C = int R"
  proof -
    have "int ?L sdiv int C = int ?L div int C" using C by (intro sdiv_nonneg) simp_all
    also have "\<dots> = int (?L div C)" by (simp only: zdiv_int)
    also have "?L div C = R" using C by simp
    finally show ?thesis .
  qed
  have ok2: "int_ok (int R)" using Rb by (simp only: int_ok_nat)
  have inv0: "scan_inv R C f h (h, replicate ?L False)"
    by (simp add: scan_inv_def dest_less)
  have v0: "\<forall>i. 0 < i \<and> i \<le> 0 \<longrightarrow> replicate ?L False ! i" by auto
  have "\<exists>s'. cycle_scan f (f + ?L) (int R) (int ?L - 1) (f + 0) (h, replicate ?L False) = Some (Inr s') \<and>
           scan_inv R C f h s' \<and> (\<forall>i. 0 < i \<and> i < ?L \<longrightarrow> snd s' ! i)"
    using inv0 bound v0 L by (rule cycle_scan_ok)
  then obtain s' where s': "cycle_scan f (f + ?L) (int R) (int ?L - 1) f (h, replicate ?L False) = Some (Inr s')"
    "scan_inv R C f h s'" "\<forall>i. 0 < i \<and> i < ?L \<longrightarrow> snd s' ! i" by auto
  have run: "transposeMemoryInPlace f (f + ?L) (int C) h = ok (fst s')"
    unfolding transposeMemoryInPlace_def
    apply (simp only: len Let_def ok1 ok2 dv not_True_eq_False if_False nat_int s'(1))
    using C apply (simp add: andThen_def ok_def)
    done
  have d0: "dest R C 0 = 0" by (simp add: dest_def)
  have cells: "\<forall>i<?L. cells (fst s') (f + dest R C i) = cells h (f + i)"
  proof (intro allI impI)
    fix i assume i: "i < ?L"
    then have di: "dest R C i < ?L" by (rule dest_less)
    show "cells (fst s') (f + dest R C i) = cells h (f + i)"
    proof (cases "snd s' ! dest R C i")
      case True
      then show ?thesis using s'(2) i unfolding scan_inv_def by blast
    next
      case False
      then have "dest R C i = 0" using s'(3) di by auto
      then have "dest R C i = dest R C 0" using d0 by simp
      then have i0: "i = 0" using dest_inj[of i R C 0] i L by simp
      have "\<not> snd s' ! 0" using False i0 d0 by simp
      then have "cells (fst s') (f + 0) = cells h (f + 0)" using s'(2) L unfolding scan_inv_def by blast
      then show ?thesis using i0 d0 by simp
    qed
  qed
  have "brk (fst s') = brk h" "\<forall>p. p < f \<or> f + ?L \<le> p \<longrightarrow> cells (fst s') p = cells h p"
    using s'(2) unfolding scan_inv_def by blast+
  then show ?thesis using run cells by blast
qed

lemma transposeInPlace_ok:
  fixes h :: "'a heap"
  assumes R: "0 < nRows M" and C: "0 < nCols M"
    and bound: "nRows M * (nRows M * nCols M) \<le> 2147483647"
  shows "transposeInPlace M h = ok (M\<lparr>nCols := nRows M, nRows := nCols M\<rparr>, transposed M h)"
proof -
  let ?R = "nRows M" and ?C = "nCols M" and ?f = "data M"
  from transposeMemoryInPlace_ok[OF R C bound, of ?f h]
  obtain h' where h': "transposeMemoryInPlace ?f (?f + ?R * ?C) (int ?C) h = ok h'" "brk h' = brk h"
    "\<forall>i<?R * ?C. cells h' (?f + dest ?R ?C i) = cells h (?f + i)"
    "\<forall>p. p < ?f \<or> ?f + ?R * ?C \<le> p \<longrightarrow> cells h' p = cells h p" by blast
  have "1 * ?C \<le> ?R * ?C" using R by (intro mult_le_mono1) simp
  moreover have "1 * (?R * ?C) \<le> ?R * (?R * ?C)" using R by (intro mult_le_mono1) simp
  ultimately have "?C \<le> 2147483647" using bound by linarith
  then have okC: "int_ok (int ?C)" by (simp only: int_ok_nat)
  have "cells h' = cells (transposed M h)"
  proof
    fix p
    show "cells h' p = cells (transposed M h) p"
    proof (cases "?f \<le> p \<and> p < ?f + ?R * ?C")
      case True
      define k where "k = p - ?f"
      have k: "k < ?C * ?R" "p = ?f + k" using True by (auto simp: k_def mult.commute)
      then have dk: "dest ?C ?R k < ?R * ?C" using dest_less[of k ?C ?R] by (simp add: mult.commute)
      have "cells h' (?f + dest ?R ?C (dest ?C ?R k)) = cells h (?f + dest ?C ?R k)"
        using h'(3) dk by blast
      then have "cells h' (?f + k) = cells h (?f + dest ?C ?R k)" using dest_dest[OF k(1)] by simp
      then show ?thesis using True k by (simp add: transposed_def)
    next
      case False
      then have "cells h' p = cells h p" using h'(4) by auto
      then show ?thesis using False by (auto simp: transposed_def)
    qed
  qed
  moreover have "brk h' = brk (transposed M h)" using h'(2) by (simp add: transposed_def)
  ultimately have "h' = transposed M h" by simp
  then show ?thesis
    using h'(1) okC by (simp add: transposeInPlace_def cbegin_def cend_def andThen_def ok_def)
qed

lemma elem_transposed:
  assumes "r < nRows M" "c < nCols M"
  shows "elem (transposed M h) (M\<lparr>nCols := nRows M, nRows := nCols M\<rparr>) c r = elem h M r c"
proof -
  have lt: "c * nRows M + r < nCols M * nRows M" using assms by (intro rc_less)
  have "dest (nCols M) (nRows M) (c * nRows M + r) = r * nCols M + c"
    using assms by (intro dest_rc)
  then show ?thesis using lt by (simp add: elem_def transposed_def mult.commute add.assoc)
qed

section \<open>Basic facts about memory and loops\<close>

lemma cells_poke [simp]: "cells (poke p v h) q = (if q = p then v else cells h q)"
  by (simp add: poke_def)

lemma brk_poke [simp]: "brk (poke p v h) = brk h"
  by (simp add: poke_def)

lemma fst_allocate [simp]: "fst (allocate n h) = brk h"
  by (simp add: allocate_def)

lemma cells_allocate [simp]:
  "cells (snd (allocate n h)) p = (if brk h \<le> p \<and> p < brk h + n then 0 else cells h p)"
  by (simp add: allocate_def)

lemma brk_allocate [simp]: "brk (snd (allocate n h)) = brk h + n"
  by (simp add: allocate_def)

lemma brk_fold_poke [simp]: "brk (fold (\<lambda>i h. poke (a i h) (g i h) h) xs h) = brk h"
  by (induction xs arbitrary: h) simp_all

lemma fold_poke:
  assumes "\<And>i h'. i < n \<Longrightarrow> brk h' = brk h \<Longrightarrow>
             (\<forall>q. q < d \<or> d + i \<le> q \<longrightarrow> cells h' q = cells h q) \<Longrightarrow> g i h' = G i"
  shows "cells (fold (\<lambda>i h. poke (d + i) (g i h) h) [0..<n] h) q =
           (if d \<le> q \<and> q < d + n then G (q - d) else cells h q)"
  using assms
proof (induction n arbitrary: q)
  case 0
  then show ?case by auto
next
  case (Suc n)
  let ?h = "fold (\<lambda>i h. poke (d + i) (g i h) h) [0..<n] h"
  have IH: "\<And>q. cells ?h q = (if d \<le> q \<and> q < d + n then G (q - d) else cells h q)"
    using Suc.IH Suc.prems by (simp add: less_Suc_eq)
  have "g n ?h = G n"
    by (rule Suc.prems) (auto simp: IH)
  then show ?case by (auto simp: IH)
qed

lemma cells_copy:
  assumes "d \<le> first \<or> lastp \<le> d"
  shows "cells (copy first lastp d h) q =
           (if d \<le> q \<and> q < d + (lastp - first) then cells h (first + (q - d)) else cells h q)"
  unfolding copy_def
  by (rule fold_poke) (use assms in auto)

lemma brk_copy [simp]: "brk (copy first lastp d h) = brk h"
  by (simp add: copy_def)

lemma cells_for_each:
  "cells (for_each first lastp fn h) q =
     (if first \<le> q \<and> q < lastp then fn (cells h q) else cells h q)"
proof -
  have "cells (fold (\<lambda>i h. poke (first + i) (fn (cells h (first + i))) h) [0..<lastp - first] h) q =
          (if first \<le> q \<and> q < first + (lastp - first) then fn (cells h (first + (q - first))) else cells h q)"
    by (rule fold_poke[where G = "\<lambda>i. fn (cells h (first + i))"]) auto
  then show ?thesis by (auto simp: for_each_def)
qed

lemma brk_for_each [simp]: "brk (for_each first lastp fn h) = brk h"
  by (simp add: for_each_def)

lemma cells_store:
  "cells (store first xs h) q =
     (if first \<le> q \<and> q < first + length xs then xs ! (q - first) else cells h q)"
  unfolding store_def
  by (rule fold_poke[where G = "\<lambda>i. xs ! i"]) simp

lemma brk_store [simp]: "brk (store first xs h) = brk h"
  by (simp add: store_def)

lemma cells_transform:
  assumes "d \<le> first1 \<or> last1 \<le> d" and "d \<le> first2 \<or> first2 + (last1 - first1) \<le> d"
  shows "cells (transform first1 last1 first2 d binop h) q =
           (if d \<le> q \<and> q < d + (last1 - first1)
            then binop (cells h (first1 + (q - d))) (cells h (first2 + (q - d))) else cells h q)"
  unfolding transform_def
  by (rule fold_poke[where G = "\<lambda>i. binop (cells h (first1 + i)) (cells h (first2 + i))"])
     (use assms in auto)

lemma brk_transform [simp]: "brk (transform first1 last1 first2 d binop h) = brk h"
  by (simp add: transform_def)

lemma length_peek [simp]: "length (peek first n h) = n"
  by (simp add: peek_def)

lemma nth_peek [simp]: "i < n \<Longrightarrow> peek first n h ! i = cells h (first + i)"
  by (simp add: peek_def)

lemma andThen_ok [simp]: "andThen (ok x) f = f x"
  by (simp add: andThen_def ok_def)

lemma andThen_fail [simp]: "andThen (fail e) f = fail e"
  by (simp add: andThen_def fail_def)

lemma ok_neq_fail [simp]: "ok x \<noteq> fail e" "fail e \<noteq> ok x"
  by (simp_all add: ok_def fail_def)

lemma ok_inject [simp]: "ok x = ok y \<longleftrightarrow> x = y"
  by (simp add: ok_def)

lemma fail_inject [simp]: "fail e = fail e' \<longleftrightarrow> e = e'"
  by (simp add: fail_def)

lemma andThen_eq_ok:
  "andThen m f = ok y \<longleftrightarrow> (\<exists>x. m = ok x \<and> f x = ok y)"
  by (auto simp: andThen_def ok_def split: option.splits sum.splits)

lemma for_int_pure:
  assumes "bound \<le> 2147483648" and "\<And>i t. i < bound \<Longrightarrow> body i t = ok (g i t)"
  shows "for_int bound body s = ok (fold g [0..<bound] s)"
proof -
  have "k \<le> bound \<Longrightarrow>
      fold (\<lambda>i m. andThen m (\<lambda>t. if int_ok (int i) then body i t else fail IntRange)) [0..<k] (ok s)
        = ok (fold g [0..<k] s)" for k
  proof (induction k)
    case 0
    then show ?case by simp
  next
    case (Suc k)
    have "int_ok (int k)" using Suc.prems assms(1) by (simp add: int_ok_def INT_MAX_def)
    then show ?case using Suc assms(2)[of k] by simp
  qed
  then show ?thesis by (simp add: for_int_def)
qed

section \<open>Rounding at some values\<close>

lemma round_binary64_binade:
  assumes "2 powr of_int e \<le> \<bar>x\<bar>" and "\<bar>x\<bar> < 2 powr (of_int e + 1)"
  shows "round_binary64 x =
           of_int (round_even (x / 2 powr (of_int e - 52))) * 2 powr (of_int e - 52)"
proof -
  have "(0::real) < 2 powr of_int e" by simp
  then have pos: "0 < \<bar>x\<bar>" using assms(1) by linarith
  then have "\<lfloor>log 2 \<bar>x\<bar>\<rfloor> = e" using assms by (simp add: floor_log_eq_powr_iff)
  then show ?thesis using pos by (simp add: round_binary64_def Let_def)
qed

lemma round_even_int [simp]: "round_even (of_int k) = k"
  by (simp add: round_even_def)

lemma round_near_one: "round_binary64 (1 - 1 / 2 ^ 60) = 1"
proof -
  have "round_binary64 (1 - 1 / 2 ^ 60) =
      of_int (round_even ((1 - 1 / 2 ^ 60) / 2 powr (of_int (- 1) - 52))) * 2 powr (of_int (- 1) - 52)"
    by (rule round_binary64_binade) (simp_all add: powr_minus_divide)
  also have "2 powr (of_int (- 1) - 52) = (1 / 2 ^ 53 :: real)"
    by (simp add: powr_minus_divide)
  also have "round_even ((1 - 1 / 2 ^ 60) / (1 / 2 ^ 53)) = 2 ^ 53"
    by (simp add: round_even_def Let_def)
  finally show ?thesis by simp
qed


lemma round_one: "round_binary64 1 = 1"
proof -
  have "round_binary64 1 =
      of_int (round_even (1 / 2 powr (of_int 0 - 52))) * 2 powr (of_int 0 - 52)"
    by (rule round_binary64_binade) simp_all
  also have "2 powr (of_int 0 - 52) = (1 / 2 ^ 52 :: real)"
    by (simp add: powr_minus_divide)
  also have "round_even (1 / (1 / 2 ^ 52)) = 2 ^ 52"
    by (simp add: round_even_def Let_def)
  finally show ?thesis by simp
qed

lemma round_2_53: "round_binary64 9007199254740992 = 9007199254740992"
proof -
  have "round_binary64 9007199254740992 =
      of_int (round_even (9007199254740992 / 2 powr (of_int 53 - 52))) * 2 powr (of_int 53 - 52)"
    by (rule round_binary64_binade) simp_all
  also have "2 powr (of_int 53 - 52) = (2 :: real)" by simp
  also have "round_even (9007199254740992 / 2) = 4503599627370496"
    by (simp add: round_even_def Let_def)
  finally show ?thesis by simp
qed

lemma round_2_53_plus_1: "round_binary64 9007199254740993 = 9007199254740992"
proof -
  have "round_binary64 9007199254740993 =
      of_int (round_even (9007199254740993 / 2 powr (of_int 53 - 52))) * 2 powr (of_int 53 - 52)"
    by (rule round_binary64_binade) simp_all
  also have "2 powr (of_int 53 - 52) = (2 :: real)" by simp
  also have "round_even (9007199254740993 / 2) = 4503599627370496"
    by (simp add: round_even_def Let_def)
  finally show ?thesis by simp
qed

lemma round_inverse_49: "round_binary64 (1 / 49) = 5882252574524729 / 2 ^ 58"
proof -
  have "round_binary64 (1 / 49) =
      of_int (round_even (1 / 49 / 2 powr (of_int (- 6) - 52))) * 2 powr (of_int (- 6) - 52)"
    by (rule round_binary64_binade) (simp_all add: powr_minus_divide)
  also have "2 powr (of_int (- 6) - 52) = (1 / 2 ^ 58 :: real)"
    by (simp add: powr_minus_divide)
  also have "round_even (1 / 49 / (1 / 2 ^ 58)) = 5882252574524729"
    by (simp add: round_even_def Let_def)
  finally show ?thesis by simp
qed

lemma round_49_times: "round_binary64 (49 * (5882252574524729 / 2 ^ 58)) = 1 - 1 / 2 ^ 53"
proof -
  have "round_binary64 (49 * (5882252574524729 / 2 ^ 58)) =
      of_int (round_even (49 * (5882252574524729 / 2 ^ 58) / 2 powr (of_int (- 1) - 52))) *
        2 powr (of_int (- 1) - 52)"
    by (rule round_binary64_binade) (simp_all add: powr_minus_divide)
  also have "2 powr (of_int (- 1) - 52) = (1 / 2 ^ 53 :: real)"
    by (simp add: powr_minus_divide)
  also have "round_even (49 * (5882252574524729 / 2 ^ 58) / (1 / 2 ^ 53)) = 9007199254740991"
    by (simp add: round_even_def Let_def)
  finally show ?thesis by simp
qed

section \<open>Transposition in place\<close>

lemma transposeInPlace_transposes:
  fixes h :: "'a heap"
  assumes "0 < nRows M" and "0 < nCols M"
    and "nRows M * (nRows M * nCols M) \<le> 2147483647"
  shows "\<exists>M' h'. transposeInPlace M h = ok (M', h') \<and>
           nRows M' = nCols M \<and> nCols M' = nRows M \<and> data M' = data M \<and>
           (\<forall>r<nRows M. \<forall>c<nCols M. elem h' M' c r = elem h M r c)"
  using transposeInPlace_ok[OF assms, of h] elem_transposed[of _ M _ h] by simp

lemma cycle_loop_overflow:
  fixes s :: "'a heap \<times> bool list"
  assumes "length (snd s) = 92682"
  shows "cycle_loop f 46341 92681 (f + 1) 1 s = Some (Inl IntRange)"
proof -
  have 1: "(46341::int) smod 92681 = 46341" by (simp add: smod_nonneg)
  have step: "cycle_loop f 46341 92681 (f + 1) 1 s =
      cycle_loop f 46341 92681 (f + 1) 46341
        (swap_cells (f + 46341) (f + 1) (fst s), (snd s)[46341 := True])"
    by (subst cycle_loop.simps) (simp add: int_ok_def INT_MAX_def 1 assms Let_def)
  have "cycle_loop f 46341 92681 (f + 1) 46341
        (swap_cells (f + 46341) (f + 1) (fst s), (snd s)[46341 := True]) = Some (Inl IntRange)"
    by (subst cycle_loop.simps) (simp add: int_ok_def INT_MAX_def)
  then show ?thesis using step by simp
qed

lemma transposeInPlace_overflow_any:
  fixes h :: "'a heap"
  assumes "nRows M = 46341" "nCols M = 2"
  shows "transposeInPlace M h = fail IntRange"
proof -
  let ?f = "data M"
  have scan: "cycle_scan ?f (?f + 92682) 46341 92681 ?f (h, replicate 92682 False) = Some (Inl IntRange)"
    apply (subst cycle_scan.simps)
    apply (simp add: Let_def int_ok_def INT_MAX_def)
    apply (simp add: cycle_loop_overflow[of _ ?f, simplified])
    done
  have dv: "(92682::int) sdiv 2 = 46341" by (simp add: sdiv_nonneg)
  show ?thesis
    unfolding transposeInPlace_def transposeMemoryInPlace_def cbegin_def cend_def
    using scan
    by (simp add: assms Let_def int_ok_def INT_MAX_def dv andThen_def fail_def)
qed

text \<open>
  Claim C1 says that \<^verbatim>\<open>transposeInPlace\<close> computes the transpose of every matrix that
  has at least one element. The index arithmetic of \<^verbatim>\<open>transposeMemoryInPlace\<close> is
  done in \<^verbatim>\<open>int\<close>: for a matrix with 46341 rows and 2 columns the second step of the
  first cycle multiplies \<open>n = 46341\<close> by \<open>a = 46341\<close>, which is \<open>2147488281\<close> and
  exceeds the largest \<^verbatim>\<open>int\<close>, so the call does not produce the transpose (lemma
  \<open>transposeInPlace_transposes\<close> shows that it does for every matrix with
  \<open>R * (R * C) \<le> 2147483647\<close>).
\<close>

theorem transposeInPlace_int_overflow:
  "transposeInPlace \<lparr>nRows = 46341, nCols = 2, data = 0\<rparr> \<lparr>cells = (\<lambda>p. 0::real), brk = 92682\<rparr>
     = fail IntRange"
  by (rule transposeInPlace_overflow_any) simp_all

section \<open>The matrix product\<close>

lemma fold_upt_inv:
  assumes "P 0 s" and "\<And>i t. i < n \<Longrightarrow> P i t \<Longrightarrow> P (Suc i) (f i t)"
  shows "P n (fold f [0..<n] s)"
  using assms by (induction n) simp_all

lemma accumulate_0 [simp]: "accumulate f 0 a = a"
  by (simp add: accumulate_def)

lemma accumulate_Suc [simp]: "accumulate f (Suc n) a = accumulate f n a + f n"
  by (simp add: accumulate_def)

lemma accumulate_cong: "(\<And>k. k < n \<Longrightarrow> f k = g k) \<Longrightarrow> accumulate f n a = accumulate g n a"
  by (induction n) simp_all

lemma accumulate_sum:
  fixes a :: "'a::comm_monoid_add"
  shows "accumulate f n a = a + (\<Sum>k<n. f k)"
  by (induction n) (simp_all add: add.assoc)

lemma sum_in_order_sum:
  fixes f :: "nat \<Rightarrow> 'a::comm_monoid_add"
  shows "sum_in_order f n = (\<Sum>k<n. f k)"
  by (simp add: sum_in_order_def accumulate_sum)

lemma size_t_mul_small: "a \<le> 2147483647 \<Longrightarrow> b \<le> 2147483647 \<Longrightarrow> size_t_mul a b = a * b"
proof -
  assume "a \<le> 2147483647" "b \<le> 2147483647"
  then have "a * b \<le> 2147483647 * 2147483647" by (rule mult_le_mono)
  then have "a * b < 2 ^ 64" by simp
  then show ?thesis by (simp add: size_t_mul_def)
qed

lemma size_from_cube:
  fixes R C :: nat
  assumes "0 < R" and "R * (R * C) \<le> 2147483647"
  shows "R * C < 2 ^ 64"
proof -
  have "R * C \<le> R * (R * C)" using assms(1) by simp
  then have "R * C \<le> 2147483647" using assms(2) by (rule le_trans)
  then show ?thesis by simp
qed

lemma Matrix_ctor_eq:
  assumes "R * C < 2 ^ 64"
  shows "Matrix_ctor R C h = (\<lparr>nRows = R, nCols = C, data = brk h\<rparr>, snd (allocate (R * C) h))"
  using assms by (simp add: Matrix_ctor_def allocate_def size_t_mul_def)

lemma Matrix_ctor_small:
  assumes "R \<le> 2147483647" and "C \<le> 2147483647"
  shows "Matrix_ctor R C h = (\<lparr>nRows = R, nCols = C, data = brk h\<rparr>, snd (allocate (R * C) h))"
  using size_t_mul_small[OF assms] by (simp add: Matrix_ctor_def allocate_def)

lemma multiply_pure:
  fixes h :: "'a::{zero,plus,times} heap"
  assumes "nRows M \<le> 2147483647" "nCols M \<le> 2147483647" "nCols other \<le> 2147483647"
    and "nCols M = nRows other"
  shows "multiply M other h =
           ok (fst (Matrix_ctor (nRows M) (nCols other) h),
               snd (fold (mul_row M other) [0..<nRows M]
                      (data (fst (Matrix_ctor (nRows M) (nCols other) h)),
                       snd (Matrix_ctor (nRows M) (nCols other) h))))"
proof -
  have link: "for_int (nCols M)
          (\<lambda>link (output, h).
             ok (output, poke output (cells h output + cells h (rowPtr + link) *
                   cells h (data other + link * nCols other + j)) h)) s
        = ok (fold (mul_link rowPtr (data other) (nCols other) j) [0..<nCols M] s)"
    for rowPtr j and s :: "nat \<times> 'a heap"
    by (rule for_int_pure) (use assms(2) in \<open>auto simp: mul_link_def split: prod.splits\<close>)
  have col: "for_int (nCols other)
          (\<lambda>col s. andThen (for_int (nCols M)
             (\<lambda>link (output, h).
                ok (output, poke output (cells h output + cells h (rowPtr + link) *
                      cells h (data other + link * nCols other + col)) h)) s)
             (\<lambda>(output, h). ok (output + 1, h))) s
        = ok (fold (mul_col rowPtr (data other) (nCols other) (nCols M)) [0..<nCols other] s)"
    for rowPtr and s :: "nat \<times> 'a heap"
    by (rule for_int_pure) (use assms(3) in \<open>auto simp: link mul_col_def Let_def split: prod.splits\<close>)
  have row: "for_int (nRows M)
          (\<lambda>row.
             for_int (nCols other)
               (\<lambda>col s. andThen (for_int (nCols M)
                  (\<lambda>link (output, h).
                     ok (output, poke output (cells h output + cells h (data M + row * nCols M + link) *
                           cells h (data other + link * nCols other + col)) h)) s)
                  (\<lambda>(output, h). ok (output + 1, h)))) s
        = ok (fold (mul_row M other) [0..<nRows M] s)"
    for s :: "nat \<times> 'a heap"
  proof (rule for_int_pure)
    show "nRows M \<le> 2147483648" using assms(1) by simp
  next
    fix i and t :: "nat \<times> 'a heap"
    show "for_int (nCols other)
               (\<lambda>col s. andThen (for_int (nCols M)
                  (\<lambda>link (output, h).
                     ok (output, poke output (cells h output + cells h (data M + i * nCols M + link) *
                           cells h (data other + link * nCols other + col)) h)) s)
                  (\<lambda>(output, h). ok (output + 1, h))) t = ok (mul_row M other i t)"
      by (simp only: col mul_row_def)
  qed
  have ne: "\<not> nCols M \<noteq> nRows other" using assms(4) by simp
  obtain product h1 where ctor: "Matrix_ctor (nRows M) (nCols other) h = (product, h1)"
    by (cases "Matrix_ctor (nRows M) (nCols other) h")
  show ?thesis
    apply (simp only: multiply_def ne if_False ctor prod.case Let_def row andThen_ok fst_conv snd_conv)
    apply (simp add: case_prod_beta)
    done
qed

lemma mul_link_loop:
  fixes h :: "'a::{plus,times} heap"
  assumes "\<And>l. l < K \<Longrightarrow> rowPtr + l \<noteq> out \<and> ob + l * oC + j \<noteq> out"
  defines "s \<equiv> fold (mul_link rowPtr ob oC j) [0..<K] (out, h)"
  shows "fst s = out" and "brk (snd s) = brk h"
    and "cells (snd s) out =
           accumulate (\<lambda>l. cells h (rowPtr + l) * cells h (ob + l * oC + j)) K (cells h out)"
    and "\<And>q. q \<noteq> out \<Longrightarrow> cells (snd s) q = cells h q"
proof -
  define P where "P k t \<longleftrightarrow> fst t = out \<and> brk (snd t) = brk h \<and>
      cells (snd t) out =
        accumulate (\<lambda>l. cells h (rowPtr + l) * cells h (ob + l * oC + j)) k (cells h out) \<and>
      (\<forall>q. q \<noteq> out \<longrightarrow> cells (snd t) q = cells h q)" for k and t :: "nat \<times> 'a heap"
  have "P K (fold (mul_link rowPtr ob oC j) [0..<K] (out, h))"
  proof (rule fold_upt_inv)
    show "P 0 (out, h)" by (simp add: P_def)
  next
    fix i t assume i: "i < K" and t: "P i t"
    have ne: "rowPtr + i \<noteq> out" "ob + i * oC + j \<noteq> out" using assms(1)[OF i] by simp_all
    show "P (Suc i) (mul_link rowPtr ob oC j i t)"
      using t ne unfolding P_def mul_link_def by (simp add: add.assoc)
  qed
  then have F: "fst s = out" "brk (snd s) = brk h"
    "cells (snd s) out =
       accumulate (\<lambda>l. cells h (rowPtr + l) * cells h (ob + l * oC + j)) K (cells h out)"
    "\<forall>q. q \<noteq> out \<longrightarrow> cells (snd s) q = cells h q"
    unfolding P_def s_def by simp_all
  show "fst s = out" by (rule F(1))
  show "brk (snd s) = brk h" by (rule F(2))
  show "cells (snd s) out =
       accumulate (\<lambda>l. cells h (rowPtr + l) * cells h (ob + l * oC + j)) K (cells h out)"
    by (rule F(3))
  show "\<And>q. q \<noteq> out \<Longrightarrow> cells (snd s) q = cells h q" using F(4) by simp
qed

lemma mul_col_loop:
  fixes h :: "'a::{plus,times} heap"
  assumes "rowPtr + K \<le> outp" and "ob + K * oC \<le> outp"
  defines "s \<equiv> fold (mul_col rowPtr ob oC K) [0..<oC] (outp, h)"
  shows "fst s = outp + oC" and "brk (snd s) = brk h"
    and "\<And>j. j < oC \<Longrightarrow> cells (snd s) (outp + j) =
           accumulate (\<lambda>l. cells h (rowPtr + l) * cells h (ob + l * oC + j)) K (cells h (outp + j))"
    and "\<And>q. q < outp \<or> outp + oC \<le> q \<Longrightarrow> cells (snd s) q = cells h q"
proof -
  define P where "P n t \<longleftrightarrow> fst t = outp + n \<and> brk (snd t) = brk h \<and>
      (\<forall>j<n. cells (snd t) (outp + j) =
           accumulate (\<lambda>l. cells h (rowPtr + l) * cells h (ob + l * oC + j)) K (cells h (outp + j))) \<and>
      (\<forall>q. \<not> (outp \<le> q \<and> q < outp + n) \<longrightarrow> cells (snd t) q = cells h q)"
    for n and t :: "nat \<times> 'a heap"
  have "P oC (fold (mul_col rowPtr ob oC K) [0..<oC] (outp, h))"
  proof (rule fold_upt_inv)
    show "P 0 (outp, h)" by (simp add: P_def)
  next
    fix n t assume n: "n < oC" and t: "P n t"
    from t have T: "fst t = outp + n" "brk (snd t) = brk h"
      "\<And>j. j < n \<Longrightarrow> cells (snd t) (outp + j) =
         accumulate (\<lambda>l. cells h (rowPtr + l) * cells h (ob + l * oC + j)) K (cells h (outp + j))"
      "\<And>q. \<not> (outp \<le> q \<and> q < outp + n) \<Longrightarrow> cells (snd t) q = cells h q"
      unfolding P_def by simp_all
    define u where "u = fold (mul_link rowPtr ob oC n) [0..<K] (outp + n, snd t)"
    have tt: "t = (outp + n, snd t)" using T(1) by (cases t) simp
    have below: "rowPtr + l < outp \<and> ob + l * oC + n < outp" if l: "l < K" for l
    proof -
      have "l * oC + n < K * oC" using l n by (rule rc_less)
      then show ?thesis using assms l by linarith
    qed
    have rd: "\<And>l. l < K \<Longrightarrow> rowPtr + l \<noteq> outp + n \<and> ob + l * oC + n \<noteq> outp + n"
    proof -
      fix l assume "l < K"
      from below[OF this] show "rowPtr + l \<noteq> outp + n \<and> ob + l * oC + n \<noteq> outp + n" by linarith
    qed
    note L = mul_link_loop[where K = K and rowPtr = rowPtr and out = "outp + n" and ob = ob and oC = oC
        and j = n and h = "snd t", OF rd, folded u_def]
    have reads: "accumulate (\<lambda>l. cells (snd t) (rowPtr + l) * cells (snd t) (ob + l * oC + n)) K a =
        accumulate (\<lambda>l. cells h (rowPtr + l) * cells h (ob + l * oC + n)) K a" for a
    proof (rule accumulate_cong)
      fix l assume "l < K"
      from below[OF this] have 1: "\<not> (outp \<le> rowPtr + l \<and> rowPtr + l < outp + n)"
        and 2: "\<not> (outp \<le> ob + l * oC + n \<and> ob + l * oC + n < outp + n)" by linarith+
      show "cells (snd t) (rowPtr + l) * cells (snd t) (ob + l * oC + n) =
          cells h (rowPtr + l) * cells h (ob + l * oC + n)"
        by (simp only: T(4)[OF 1] T(4)[OF 2])
    qed
    have step: "mul_col rowPtr ob oC K n t = (fst u + 1, snd u)"
      unfolding mul_col_def Let_def u_def using tt by simp
    have here: "cells (snd t) (outp + n) = cells h (outp + n)" by (rule T(4)) simp
    have new: "cells (snd u) (outp + n) =
        accumulate (\<lambda>l. cells h (rowPtr + l) * cells h (ob + l * oC + n)) K (cells h (outp + n))"
      by (simp only: L(3) reads here)
    show "P (Suc n) (mul_col rowPtr ob oC K n t)"
      unfolding step P_def fst_conv snd_conv
    proof (intro conjI allI impI)
      show "fst u + 1 = outp + Suc n" using L(1) by simp
      show "brk (snd u) = brk h" using L(2) T(2) by simp
    next
      fix j assume j: "j < Suc n"
      show "cells (snd u) (outp + j) =
          accumulate (\<lambda>l. cells h (rowPtr + l) * cells h (ob + l * oC + j)) K (cells h (outp + j))"
      proof (cases "j = n")
        case True then show ?thesis using new by simp
      next
        case False
        then have "j < n" using j by simp
        then show ?thesis using L(4)[of "outp + j"] T(3)[of j] by simp
      qed
    next
      fix q assume q: "\<not> (outp \<le> q \<and> q < outp + Suc n)"
      then have "q \<noteq> outp + n" by linarith
      then have "cells (snd u) q = cells (snd t) q" using L(4)[of q] by simp
      also have "\<dots> = cells h q"
      proof (rule T(4))
        show "\<not> (outp \<le> q \<and> q < outp + n)" using q by linarith
      qed
      finally show "cells (snd u) q = cells h q" .
    qed
  qed
  then have F: "fst s = outp + oC" "brk (snd s) = brk h"
    "\<forall>j<oC. cells (snd s) (outp + j) =
           accumulate (\<lambda>l. cells h (rowPtr + l) * cells h (ob + l * oC + j)) K (cells h (outp + j))"
    "\<forall>q. \<not> (outp \<le> q \<and> q < outp + oC) \<longrightarrow> cells (snd s) q = cells h q"
    unfolding P_def s_def by simp_all
  show "fst s = outp + oC" by (rule F(1))
  show "brk (snd s) = brk h" by (rule F(2))
  show "\<And>j. j < oC \<Longrightarrow> cells (snd s) (outp + j) =
           accumulate (\<lambda>l. cells h (rowPtr + l) * cells h (ob + l * oC + j)) K (cells h (outp + j))"
    using F(3) by simp
  show "\<And>q. q < outp \<or> outp + oC \<le> q \<Longrightarrow> cells (snd s) q = cells h q"
  proof -
    fix q assume "q < outp \<or> outp + oC \<le> q"
    then have "\<not> (outp \<le> q \<and> q < outp + oC)" by linarith
    then show "cells (snd s) q = cells h q" using F(4) by simp
  qed
qed

lemma mul_row_loop:
  fixes h :: "'a::{plus,times} heap"
  assumes "data M + nRows M * nCols M \<le> base" and "data other + nCols M * nCols other \<le> base"
  defines "s \<equiv> fold (mul_row M other) [0..<nRows M] (base, h)"
  shows "brk (snd s) = brk h"
    and "\<And>i j. i < nRows M \<Longrightarrow> j < nCols other \<Longrightarrow>
           cells (snd s) (base + (i * nCols other + j)) =
             accumulate (\<lambda>l. cells h (data M + (i * nCols M + l)) *
                               cells h (data other + (l * nCols other + j)))
               (nCols M) (cells h (base + (i * nCols other + j)))"
    and "\<And>q. q < base \<or> base + nRows M * nCols other \<le> q \<Longrightarrow> cells (snd s) q = cells h q"
proof -
  let ?K = "nCols M" and ?oC = "nCols other" and ?R = "nRows M" and ?ob = "data other"
  define S where "S i j = accumulate (\<lambda>l. cells h (data M + (i * ?K + l)) * cells h (?ob + (l * ?oC + j)))
      ?K (cells h (base + (i * ?oC + j)))" for i j
  define P where "P n t \<longleftrightarrow> fst t = base + n * ?oC \<and> brk (snd t) = brk h \<and>
      (\<forall>i<n. \<forall>j<?oC. cells (snd t) (base + (i * ?oC + j)) = S i j) \<and>
      (\<forall>q. \<not> (base \<le> q \<and> q < base + n * ?oC) \<longrightarrow> cells (snd t) q = cells h q)"
    for n and t :: "nat \<times> 'a heap"
  have "P ?R (fold (mul_row M other) [0..<?R] (base, h))"
  proof (rule fold_upt_inv)
    show "P 0 (base, h)" by (simp add: P_def)
  next
    fix n t assume n: "n < ?R" and t: "P n t"
    from t have T: "fst t = base + n * ?oC" "brk (snd t) = brk h"
      "\<And>i j. i < n \<Longrightarrow> j < ?oC \<Longrightarrow> cells (snd t) (base + (i * ?oC + j)) = S i j"
      "\<And>q. \<not> (base \<le> q \<and> q < base + n * ?oC) \<Longrightarrow> cells (snd t) q = cells h q"
      unfolding P_def by simp_all
    let ?outp = "base + n * ?oC" and ?rowPtr = "data M + n * ?K"
    define u where "u = fold (mul_col ?rowPtr ?ob ?oC ?K) [0..<?oC] (?outp, snd t)"
    have tt: "t = (?outp, snd t)" using T(1) by (cases t) simp
    have step: "mul_row M other n t = u"
      unfolding mul_row_def u_def using tt by simp
    have "(n + 1) * ?K \<le> ?R * ?K" using n by (intro mult_le_mono1) simp
    then have a0: "?rowPtr + ?K \<le> base" using assms(1) by (simp add: algebra_simps)
    then have a1: "?rowPtr + ?K \<le> ?outp" by simp
    have a2: "?ob + ?K * ?oC \<le> ?outp" using assms(2) by simp
    note L = mul_col_loop[where rowPtr = ?rowPtr and K = ?K and outp = ?outp and ob = ?ob
        and oC = ?oC and h = "snd t", OF a1 a2, folded u_def]
    have rowlt: "\<And>l. l < ?K \<Longrightarrow> ?rowPtr + l < base"
      using a0 by simp
    have oblt: "\<And>l j. l < ?K \<Longrightarrow> j < ?oC \<Longrightarrow> ?ob + (l * ?oC + j) < base"
    proof -
      fix l j assume "l < ?K" "j < ?oC"
      then have "l * ?oC + j < ?K * ?oC" by (rule rc_less)
      then show "?ob + (l * ?oC + j) < base" using assms(2) by simp
    qed
    have new: "cells (snd u) (?outp + j) = S n j" if j: "j < ?oC" for j
    proof -
      have "accumulate (\<lambda>l. cells (snd t) (?rowPtr + l) * cells (snd t) (?ob + l * ?oC + j)) ?K a =
          accumulate (\<lambda>l. cells h (data M + (n * ?K + l)) * cells h (?ob + (l * ?oC + j))) ?K a" for a
      proof (rule accumulate_cong)
        fix l assume l: "l < ?K"
        have "cells (snd t) (?rowPtr + l) = cells h (?rowPtr + l)"
          by (rule T(4)) (use rowlt[OF l] in linarith)
        moreover have "cells (snd t) (?ob + (l * ?oC + j)) = cells h (?ob + (l * ?oC + j))"
          by (rule T(4)) (use oblt[OF l j] in linarith)
        ultimately show "cells (snd t) (?rowPtr + l) * cells (snd t) (?ob + l * ?oC + j) =
            cells h (data M + (n * ?K + l)) * cells h (?ob + (l * ?oC + j))"
          by (simp add: add.assoc)
      qed
      moreover have "cells (snd t) (?outp + j) = cells h (?outp + j)" by (rule T(4)) simp
      ultimately show ?thesis using L(3)[OF j] by (simp add: S_def add.assoc)
    qed
    show "P (Suc n) (mul_row M other n t)"
      unfolding step P_def
    proof (intro conjI allI impI)
      show "fst u = base + Suc n * ?oC" using L(1) by (simp add: algebra_simps)
      show "brk (snd u) = brk h" using L(2) T(2) by simp
    next
      fix i j assume i: "i < Suc n" and j: "j < ?oC"
      show "cells (snd u) (base + (i * ?oC + j)) = S i j"
      proof (cases "i = n")
        case True
        then show ?thesis using new[OF j] by (simp add: add.assoc)
      next
        case False
        then have lt: "i < n" using i by simp
        then have "i * ?oC + j < n * ?oC" using j by (rule rc_less)
        then have "base + (i * ?oC + j) < ?outp" by simp
        then have "cells (snd u) (base + (i * ?oC + j)) = cells (snd t) (base + (i * ?oC + j))"
          by (intro L(4)) simp
        then show ?thesis using T(3)[OF lt j] by simp
      qed
    next
      fix q assume q: "\<not> (base \<le> q \<and> q < base + Suc n * ?oC)"
      have sm: "Suc n * ?oC = n * ?oC + ?oC" by simp
      from q have "q < ?outp \<or> ?outp + ?oC \<le> q" unfolding sm by linarith
      then have "cells (snd u) q = cells (snd t) q" by (rule L(4))
      also have "\<dots> = cells h q"
      proof (rule T(4))
        show "\<not> (base \<le> q \<and> q < base + n * ?oC)" using q unfolding sm by linarith
      qed
      finally show "cells (snd u) q = cells h q" .
    qed
  qed
  then have F: "brk (snd s) = brk h"
    "\<forall>i<?R. \<forall>j<?oC. cells (snd s) (base + (i * ?oC + j)) = S i j"
    "\<forall>q. \<not> (base \<le> q \<and> q < base + ?R * ?oC) \<longrightarrow> cells (snd s) q = cells h q"
    unfolding P_def s_def by simp_all
  show "brk (snd s) = brk h" by (rule F(1))
  show "\<And>i j. i < nRows M \<Longrightarrow> j < nCols other \<Longrightarrow>
           cells (snd s) (base + (i * nCols other + j)) =
             accumulate (\<lambda>l. cells h (data M + (i * nCols M + l)) *
                               cells h (data other + (l * nCols other + j)))
               (nCols M) (cells h (base + (i * nCols other + j)))"
    using F(2) by (simp add: S_def)
  show "\<And>q. q < base \<or> base + nRows M * nCols other \<le> q \<Longrightarrow> cells (snd s) q = cells h q"
  proof -
    fix q assume "q < base \<or> base + nRows M * nCols other \<le> q"
    then have "\<not> (base \<le> q \<and> q < base + ?R * ?oC)" by linarith
    then show "cells (snd s) q = cells h q" using F(3) by simp
  qed
qed

lemma multiply_elements:
  fixes h :: "'a::{zero,plus,times} heap"
  assumes "valid h M" and "valid h other" and "nCols M = nRows other"
  shows "\<exists>h'. multiply M other h = ok (\<lparr>nRows = nRows M, nCols = nCols other, data = brk h\<rparr>, h') \<and>
           brk h' = brk h + nRows M * nCols other \<and>
           (\<forall>r<nRows M. \<forall>c<nCols other.
              elem h' \<lparr>nRows = nRows M, nCols = nCols other, data = brk h\<rparr> r c =
                sum_in_order (\<lambda>k. elem h M r k * elem h other k c) (nCols M)) \<and>
           (\<forall>p<brk h. cells h' p = cells h p)"
proof -
  let ?P = "\<lparr>nRows = nRows M, nCols = nCols other, data = brk h\<rparr>"
  let ?ha = "snd (allocate (nRows M * nCols other) h)"
  let ?s = "fold (mul_row M other) [0..<nRows M] (brk h, ?ha)"
  from assms have b: "nRows M \<le> 2147483647" "nCols M \<le> 2147483647" "nCols other \<le> 2147483647"
    and m1: "data M + nRows M * nCols M \<le> brk h"
    and m2: "data other + nCols M * nCols other \<le> brk h"
    by (simp_all add: valid_def)
  have run: "multiply M other h = ok (?P, snd ?s)"
    using multiply_pure[OF b assms(3), of h] by (simp add: Matrix_ctor_small[OF b(1,3)])
  note L = mul_row_loop[where M = M and other = other and base = "brk h" and h = ?ha, OF m1 m2]
  have el: "elem (snd ?s) ?P r c = sum_in_order (\<lambda>k. elem h M r k * elem h other k c) (nCols M)"
    if r: "r < nRows M" and c: "c < nCols other" for r c
  proof -
    have lt: "r * nCols other + c < nRows M * nCols other" using r c by (rule rc_less)
    have "accumulate (\<lambda>l. cells ?ha (data M + (r * nCols M + l)) *
                             cells ?ha (data other + (l * nCols other + c))) (nCols M) a
        = accumulate (\<lambda>k. elem h M r k * elem h other k c) (nCols M) a" for a
    proof (rule accumulate_cong)
      fix l assume l: "l < nCols M"
      have "r * nCols M + l < nRows M * nCols M" using r l by (rule rc_less)
      then have 1: "data M + (r * nCols M + l) < brk h" using m1 by simp
      have "l * nCols other + c < nCols M * nCols other" using l c by (rule rc_less)
      then have 2: "data other + (l * nCols other + c) < brk h" using m2 by simp
      show "cells ?ha (data M + (r * nCols M + l)) * cells ?ha (data other + (l * nCols other + c)) =
          elem h M r l * elem h other l c"
        using 1 2 by (simp add: elem_def add.assoc)
    qed
    moreover have "cells ?ha (brk h + (r * nCols other + c)) = 0" using lt by simp
    ultimately show ?thesis using L(2)[OF r c] by (simp add: elem_def add.assoc sum_in_order_def)
  qed
  have fr: "cells (snd ?s) p = cells h p" if "p < brk h" for p
    using L(3)[of p] that by simp
  have "brk (snd ?s) = brk h + nRows M * nCols other" using L(1) by simp
  then show ?thesis using run el fr by blast
qed

lemma multiply_product:
  fixes h :: "'a::semiring_0 heap"
  assumes "valid h M" and "valid h other" and "nCols M = nRows other"
  shows "\<exists>h'. multiply M other h = ok (\<lparr>nRows = nRows M, nCols = nCols other, data = brk h\<rparr>, h') \<and>
           brk h' = brk h + nRows M * nCols other \<and>
           (\<forall>r<nRows M. \<forall>c<nCols other.
              elem h' \<lparr>nRows = nRows M, nCols = nCols other, data = brk h\<rparr> r c =
                (\<Sum>k<nCols M. elem h M r k * elem h other k c)) \<and>
           (\<forall>p<brk h. cells h' p = cells h p)"
  using multiply_elements[OF assms] by (simp only: sum_in_order_sum)

section \<open>Zero-initialised construction and the product\<close>

lemma elem_ctor_zero:
  fixes h :: "'a::zero heap"
  assumes "R * C < 2 ^ 64" and "r < R" and "c < C"
  shows "elem (snd (Matrix_ctor R C h)) (fst (Matrix_ctor R C h)) r c = 0"
proof -
  have "r * C + c < R * C" using assms(2,3) by (rule rc_less)
  then show ?thesis by (simp add: Matrix_ctor_eq[OF assms(1)] elem_def add.assoc)
qed

lemma sum_in_order_3: "sum_in_order f 3 = 0 + f 0 + f 1 + f 2"
  by (simp add: sum_in_order_def accumulate_def eval_nat_numeral)

lemma sum_in_order_2: "sum_in_order f 2 = 0 + f 0 + f 1"
  by (simp add: sum_in_order_def accumulate_def eval_nat_numeral)

text \<open>
  Claim C10. The allocating constructor returns a matrix of the requested dimensions; when
  the number of elements \<open>R * C\<close> is within the range of \<^verbatim>\<open>size_t\<close>, in which the
  constructor computes it, all its elements are zero. For two valid matrices with matching
  inner dimensions, \<^verbatim>\<open>multiply\<close>, which adds into a product constructed that way, returns
  a matrix of \<open>nRows M\<close> rows and \<open>nCols other\<close> columns whose element \<open>(r, c)\<close> is the sum of
  the products \<open>M(r, k) * other(k, c)\<close>, added one after the other from zero in the order of
  the link index \<open>k\<close>, each product and each addition in the arithmetic of the element type.
\<close>

theorem ctor_zero_multiply_in_order:
  fixes h :: "'a::{zero,plus,times} heap"
  shows "nRows (fst (Matrix_ctor R C h)) = R \<and> nCols (fst (Matrix_ctor R C h)) = C \<and>
         (R * C < 2 ^ 64 \<longrightarrow>
            (\<forall>r<R. \<forall>c<C. elem (snd (Matrix_ctor R C h)) (fst (Matrix_ctor R C h)) r c = 0)) \<and>
         (valid h M \<and> valid h other \<and> nCols M = nRows other \<longrightarrow>
            (\<exists>P h'. multiply M other h = ok (P, h') \<and>
               nRows P = nRows M \<and> nCols P = nCols other \<and>
               (\<forall>r<nRows M. \<forall>c<nCols other.
                  elem h' P r c = sum_in_order (\<lambda>k. elem h M r k * elem h other k c) (nCols M))))"
proof (intro conjI allI impI)
  show "nRows (fst (Matrix_ctor R C h)) = R" "nCols (fst (Matrix_ctor R C h)) = C"
    by (simp_all add: Matrix_ctor_def split: prod.split)
next
  fix r c assume "R * C < 2 ^ 64" "r < R" "c < C"
  then show "elem (snd (Matrix_ctor R C h)) (fst (Matrix_ctor R C h)) r c = 0"
    by (rule elem_ctor_zero)
next
  assume a: "valid h M \<and> valid h other \<and> nCols M = nRows other"
  then obtain h' where
    "multiply M other h = ok (\<lparr>nRows = nRows M, nCols = nCols other, data = brk h\<rparr>, h')"
    "\<forall>r<nRows M. \<forall>c<nCols other.
        elem h' \<lparr>nRows = nRows M, nCols = nCols other, data = brk h\<rparr> r c =
          sum_in_order (\<lambda>k. elem h M r k * elem h other k c) (nCols M)"
    using multiply_elements[of h M other] by blast
  then show "\<exists>P h'. multiply M other h = ok (P, h') \<and>
               nRows P = nRows M \<and> nCols P = nCols other \<and>
               (\<forall>r<nRows M. \<forall>c<nCols other.
                  elem h' P r c = sum_in_order (\<lambda>k. elem h M r k * elem h other k c) (nCols M))"
    by (intro exI[of _ "\<lparr>nRows = nRows M, nCols = nCols other, data = brk h\<rparr>"] exI[of _ h']) simp
qed

theorem ctor_zero_multiply_in_order_witness:
  "elem (snd (Matrix_ctor 2 2 (heap_of [1, 2, 3, 4, 5, 6, 7, 8 :: int])))
        (fst (Matrix_ctor 2 2 (heap_of [1, 2, 3, 4, 5, 6, 7, 8 :: int]))) 1 1 = 0 \<and>
   (\<exists>P h'. multiply \<lparr>nRows = 2, nCols = 2, data = 0\<rparr> \<lparr>nRows = 2, nCols = 2, data = 4\<rparr>
              (heap_of [1, 2, 3, 4, 5, 6, 7, 8 :: int]) = ok (P, h') \<and>
            elem h' P 0 0 = 19 \<and> elem h' P 0 1 = 22 \<and> elem h' P 1 0 = 43 \<and> elem h' P 1 1 = 50)"
proof -
  let ?h = "heap_of [1, 2, 3, 4, 5, 6, 7, 8 :: int]"
  let ?A = "\<lparr>nRows = 2, nCols = 2, data = 0\<rparr>" and ?B = "\<lparr>nRows = 2, nCols = 2, data = 4\<rparr>"
  note T = ctor_zero_multiply_in_order[of 2 2 ?h ?A ?B]
  have v: "valid ?h ?A \<and> valid ?h ?B \<and> nCols ?A = nRows ?B"
    by (simp add: valid_def heap_of_def)
  from T v obtain P h' where P: "multiply ?A ?B ?h = ok (P, h')"
    "\<And>r c. r < 2 \<Longrightarrow> c < 2 \<Longrightarrow>
        elem h' P r c = sum_in_order (\<lambda>k. elem ?h ?A r k * elem ?h ?B k c) 2"
    by auto
  have e: "elem ?h ?A 0 0 = 1" "elem ?h ?A 0 1 = 2" "elem ?h ?A 1 0 = 3" "elem ?h ?A 1 1 = 4"
    "elem ?h ?B 0 0 = 5" "elem ?h ?B 0 1 = 6" "elem ?h ?B 1 0 = 7" "elem ?h ?B 1 1 = 8"
    by (simp_all add: elem_def heap_of_def)
  have p: "elem h' P 0 0 = sum_in_order (\<lambda>k. elem ?h ?A 0 k * elem ?h ?B k 0) 2"
    "elem h' P 0 1 = sum_in_order (\<lambda>k. elem ?h ?A 0 k * elem ?h ?B k 1) 2"
    "elem h' P 1 0 = sum_in_order (\<lambda>k. elem ?h ?A 1 k * elem ?h ?B k 0) 2"
    "elem h' P 1 1 = sum_in_order (\<lambda>k. elem ?h ?A 1 k * elem ?h ?B k 1) 2"
    by (rule P(2); simp)+
  have "elem h' P 0 0 = 19" "elem h' P 0 1 = 22" "elem h' P 1 0 = 43" "elem h' P 1 1 = 50"
    unfolding p sum_in_order_2 e by simp_all
  moreover have "elem (snd (Matrix_ctor 2 2 ?h)) (fst (Matrix_ctor 2 2 ?h)) 1 1 = 0"
    using T by simp
  ultimately show ?thesis using P(1) by blast
qed

text \<open>
  The sum is not the exact one. In double precision the row \<open>(2\<^sup>5\<^sup>3, 1, 1)\<close> times a column
  of three ones gives \<open>2\<^sup>5\<^sup>3\<close>: each addition of 1 is rounded away, while the sum of the
  three products is \<open>2\<^sup>5\<^sup>3 + 2\<close>.
\<close>

theorem multiply_rounds_each_addition:
  "map_option value_of
     (result_elem
        (multiply \<lparr>nRows = 1, nCols = 3, data = 0\<rparr> \<lparr>nRows = 3, nCols = 1, data = 3\<rparr>
           (heap_of [Binary64 9007199254740992, Binary64 1, Binary64 1,
                     Binary64 1, Binary64 1, Binary64 1])) 0 0) =
   Some 9007199254740992 \<and>
   9007199254740992 * 1 + 1 * 1 + 1 * 1 = (9007199254740994 :: real)"
proof -
  let ?h = "heap_of [Binary64 9007199254740992, Binary64 1, Binary64 1,
                     Binary64 1, Binary64 1, Binary64 1]"
  let ?A = "\<lparr>nRows = 1, nCols = 3, data = 0\<rparr>" and ?B = "\<lparr>nRows = 3, nCols = 1, data = 3\<rparr>"
  have v: "valid ?h ?A" "valid ?h ?B" "nCols ?A = nRows ?B"
    by (simp_all add: valid_def heap_of_def)
  from multiply_elements[OF v] obtain h' where
    m: "multiply ?A ?B ?h = ok (\<lparr>nRows = 1, nCols = 1, data = brk ?h\<rparr>, h')"
    and el: "elem h' \<lparr>nRows = 1, nCols = 1, data = brk ?h\<rparr> 0 0 =
        sum_in_order (\<lambda>k. elem ?h ?A 0 k * elem ?h ?B k 0) 3"
    by auto
  have e: "elem ?h ?A 0 0 = Binary64 9007199254740992" "elem ?h ?A 0 1 = Binary64 1"
    "elem ?h ?A 0 2 = Binary64 1" "elem ?h ?B 0 0 = Binary64 1" "elem ?h ?B 1 0 = Binary64 1"
    "elem ?h ?B 2 0 = Binary64 1"
    by (simp_all add: elem_def heap_of_def)
  have "sum_in_order (\<lambda>k. elem ?h ?A 0 k * elem ?h ?B k 0) 3 = Binary64 9007199254740992"
    unfolding sum_in_order_3 e
    by (simp add: plus_binary64_def times_binary64_def zero_binary64_def
        round_one round_2_53 round_2_53_plus_1)
  then have "elem h' \<lparr>nRows = 1, nCols = 1, data = brk ?h\<rparr> 0 0 = Binary64 9007199254740992"
    by (simp only: el)
  then have "result_elem (multiply ?A ?B ?h) 0 0 = Some (Binary64 9007199254740992)"
    unfolding result_elem_def m ok_def by simp
  then show ?thesis by simp
qed

section \<open>The closed-form inverse of a 3 by 3 matrix\<close>

lemma inv3_algebra:
  fixes m0 m1 m2 m3 m4 m5 m6 m7 m8 :: "'a::field"
  defines "D \<equiv> m0 * (m4 * m8 - m7 * m5) - m1 * (m3 * m8 - m5 * m6) + m2 * (m3 * m7 - m4 * m6)"
  assumes "D \<noteq> 0"
  shows "(m4 * m8 - m7 * m5) * (1 / D) * m0 + (m2 * m7 - m1 * m8) * (1 / D) * m3 + (m1 * m5 - m2 * m4) * (1 / D) * m6 = 1"
    and "(m4 * m8 - m7 * m5) * (1 / D) * m1 + (m2 * m7 - m1 * m8) * (1 / D) * m4 + (m1 * m5 - m2 * m4) * (1 / D) * m7 = 0"
    and "(m4 * m8 - m7 * m5) * (1 / D) * m2 + (m2 * m7 - m1 * m8) * (1 / D) * m5 + (m1 * m5 - m2 * m4) * (1 / D) * m8 = 0"
    and "(m5 * m6 - m3 * m8) * (1 / D) * m0 + (m0 * m8 - m2 * m6) * (1 / D) * m3 + (m3 * m2 - m0 * m5) * (1 / D) * m6 = 0"
    and "(m5 * m6 - m3 * m8) * (1 / D) * m1 + (m0 * m8 - m2 * m6) * (1 / D) * m4 + (m3 * m2 - m0 * m5) * (1 / D) * m7 = 1"
    and "(m5 * m6 - m3 * m8) * (1 / D) * m2 + (m0 * m8 - m2 * m6) * (1 / D) * m5 + (m3 * m2 - m0 * m5) * (1 / D) * m8 = 0"
    and "(m3 * m7 - m6 * m4) * (1 / D) * m0 + (m6 * m1 - m0 * m7) * (1 / D) * m3 + (m0 * m4 - m3 * m1) * (1 / D) * m6 = 0"
    and "(m3 * m7 - m6 * m4) * (1 / D) * m1 + (m6 * m1 - m0 * m7) * (1 / D) * m4 + (m0 * m4 - m3 * m1) * (1 / D) * m7 = 0"
    and "(m3 * m7 - m6 * m4) * (1 / D) * m2 + (m6 * m1 - m0 * m7) * (1 / D) * m5 + (m0 * m4 - m3 * m1) * (1 / D) * m8 = 1"
proof -
  have key: "x * (1 / D) * a + y * (1 / D) * b + z * (1 / D) * c = (x * a + y * b + z * c) / D" for x y z a b c
    by (simp add: add_divide_distrib)
  have one: "n = D \<Longrightarrow> n / D = 1" for n using assms(2) by simp
  have zero: "n = 0 \<Longrightarrow> n / D = 0" for n by simp
  show "(m4 * m8 - m7 * m5) * (1 / D) * m0 + (m2 * m7 - m1 * m8) * (1 / D) * m3 + (m1 * m5 - m2 * m4) * (1 / D) * m6 = 1"
    unfolding key by (rule one) (simp add: D_def algebra_simps)
  show "(m4 * m8 - m7 * m5) * (1 / D) * m1 + (m2 * m7 - m1 * m8) * (1 / D) * m4 + (m1 * m5 - m2 * m4) * (1 / D) * m7 = 0"
    unfolding key by (rule zero) (simp add: algebra_simps)
  show "(m4 * m8 - m7 * m5) * (1 / D) * m2 + (m2 * m7 - m1 * m8) * (1 / D) * m5 + (m1 * m5 - m2 * m4) * (1 / D) * m8 = 0"
    unfolding key by (rule zero) (simp add: algebra_simps)
  show "(m5 * m6 - m3 * m8) * (1 / D) * m0 + (m0 * m8 - m2 * m6) * (1 / D) * m3 + (m3 * m2 - m0 * m5) * (1 / D) * m6 = 0"
    unfolding key by (rule zero) (simp add: algebra_simps)
  show "(m5 * m6 - m3 * m8) * (1 / D) * m1 + (m0 * m8 - m2 * m6) * (1 / D) * m4 + (m3 * m2 - m0 * m5) * (1 / D) * m7 = 1"
    unfolding key by (rule one) (simp add: D_def algebra_simps)
  show "(m5 * m6 - m3 * m8) * (1 / D) * m2 + (m0 * m8 - m2 * m6) * (1 / D) * m5 + (m3 * m2 - m0 * m5) * (1 / D) * m8 = 0"
    unfolding key by (rule zero) (simp add: algebra_simps)
  show "(m3 * m7 - m6 * m4) * (1 / D) * m0 + (m6 * m1 - m0 * m7) * (1 / D) * m3 + (m0 * m4 - m3 * m1) * (1 / D) * m6 = 0"
    unfolding key by (rule zero) (simp add: algebra_simps)
  show "(m3 * m7 - m6 * m4) * (1 / D) * m1 + (m6 * m1 - m0 * m7) * (1 / D) * m4 + (m0 * m4 - m3 * m1) * (1 / D) * m7 = 0"
    unfolding key by (rule zero) (simp add: algebra_simps)
  show "(m3 * m7 - m6 * m4) * (1 / D) * m2 + (m6 * m1 - m0 * m7) * (1 / D) * m5 + (m0 * m4 - m3 * m1) * (1 / D) * m8 = 1"
    unfolding key by (rule one) (simp add: D_def algebra_simps)
qed

lemma Matrix_ctor_33:
  "Matrix_ctor 3 3 h = (\<lparr>nRows = 3, nCols = 3, data = brk h\<rparr>, snd (allocate 9 h))"
  by (simp add: Matrix_ctor_def allocate_def size_t_mul_def)

lemma inverse3_run:
  fixes h :: "real heap"
  assumes v: "data M + 9 \<le> brk h" and d: "nRows M = 3" "nCols M = 3"
  defines "d \<equiv> \<lambda>i. cells h (data M + i)"
  defines "di \<equiv> 1 / (d 0 * (d 4 * d 8 - d 7 * d 5) - d 1 * (d 3 * d 8 - d 5 * d 6) + d 2 * (d 3 * d 7 - d 4 * d 6))"
  shows "\<exists>h1. inverse_matrix solver sorter threshold M h = ok (\<lparr>nRows = 3, nCols = 3, data = brk h\<rparr>, h1) \<and>
           brk h1 = brk h + 9 \<and> (\<forall>p<brk h. cells h1 p = cells h p) \<and>
           cells h1 (brk h + 0) = (d 4 * d 8 - d 7 * d 5) * di \<and>
           cells h1 (brk h + 1) = (d 2 * d 7 - d 1 * d 8) * di \<and>
           cells h1 (brk h + 2) = (d 1 * d 5 - d 2 * d 4) * di \<and>
           cells h1 (brk h + 3) = (d 5 * d 6 - d 3 * d 8) * di \<and>
           cells h1 (brk h + 4) = (d 0 * d 8 - d 2 * d 6) * di \<and>
           cells h1 (brk h + 5) = (d 3 * d 2 - d 0 * d 5) * di \<and>
           cells h1 (brk h + 6) = (d 3 * d 7 - d 6 * d 4) * di \<and>
           cells h1 (brk h + 7) = (d 6 * d 1 - d 0 * d 7) * di \<and>
           cells h1 (brk h + 8) = (d 0 * d 4 - d 3 * d 1) * di"
proof -
  define D where "D = d 0 * (d 4 * d 8 - d 7 * d 5) - d 1 * (d 3 * d 8 - d 5 * d 6) + d 2 * (d 3 * d 7 - d 4 * d 6)"
  let ?ha = "snd (allocate 9 h)"
  define g where "g k hh = (case inverse3_terms ! k of (a, b, c, e) \<Rightarrow>
      (cells hh (data M + a) * cells hh (data M + b) - cells hh (data M + c) * cells hh (data M + e)) * (1 / D))"
    for k and hh :: "real heap"
  define G where "G k = (case inverse3_terms ! k of (a, b, c, e) \<Rightarrow> (d a * d b - d c * d e) * (1 / D))" for k
  let ?hb = "fold (\<lambda>k hh. poke (brk h + k) (g k hh) hh) [0..<9] ?ha"
  have cases9: "k = 0 \<or> k = 1 \<or> k = 2 \<or> k = 3 \<or> k = 4 \<or> k = 5 \<or> k = 6 \<or> k = 7 \<or> k = 8" if "k < 9" for k :: nat
    using that by arith
  have rd: "cells ?ha (data M + i) = d i" if "i < 9" for i
    using v that by (simp add: d_def)
  have D0: "cells ?ha (data M + 0) * (cells ?ha (data M + 4) * cells ?ha (data M + 8) - cells ?ha (data M + 7) * cells ?ha (data M + 5)) -
      cells ?ha (data M + 1) * (cells ?ha (data M + 3) * cells ?ha (data M + 8) - cells ?ha (data M + 5) * cells ?ha (data M + 6)) +
      cells ?ha (data M + 2) * (cells ?ha (data M + 3) * cells ?ha (data M + 7) - cells ?ha (data M + 4) * cells ?ha (data M + 6)) = D"
    by (simp only: rd D_def)
  have m33: "(3::nat) * 3 = 9" by simp
  have run: "inverse_matrix solver sorter threshold M h = ok (\<lparr>nRows = 3, nCols = 3, data = brk h\<rparr>, ?hb)"
    unfolding inverse_matrix_def assertSquare_def
    apply (simp only: d if_False not_True_eq_False refl andThen_ok Matrix_ctor_33 prod.case if_True
        Matrix.simps Let_def m33 D0)
    apply (simp add: g_def case_prod_beta)
    done
  have gG: "g i hh = G i" if "i < 9" and "\<forall>q. q < brk h \<or> brk h + i \<le> q \<longrightarrow> cells hh q = cells ?ha q" for i hh
  proof -
    have r: "cells hh (data M + a) = d a" if "a < 9" for a
    proof -
      have "data M + a < brk h" using v that by simp
      then have "cells hh (data M + a) = cells ?ha (data M + a)" using \<open>\<forall>q. _\<close> by blast
      then show ?thesis using rd[OF that] by simp
    qed
    show ?thesis
      using cases9[OF \<open>i < 9\<close>]
      by (elim disjE) (simp_all add: g_def G_def inverse3_terms_def r r[of 0, simplified] r[of 1, simplified] r[of 2, simplified])
  qed
  have cells1: "cells ?hb q = (if brk h \<le> q \<and> q < brk h + 9 then G (q - brk h) else cells ?ha q)" for q
    by (rule fold_poke) (use gG in blast)
  have "brk ?hb = brk h + 9" by simp
  moreover have "\<forall>p<brk h. cells ?hb p = cells h p" by (simp add: cells1)
  moreover have "cells ?hb (brk h + 0) = (d 4 * d 8 - d 7 * d 5) * di"
    "cells ?hb (brk h + 1) = (d 2 * d 7 - d 1 * d 8) * di"
    "cells ?hb (brk h + 2) = (d 1 * d 5 - d 2 * d 4) * di"
    "cells ?hb (brk h + 3) = (d 5 * d 6 - d 3 * d 8) * di"
    "cells ?hb (brk h + 4) = (d 0 * d 8 - d 2 * d 6) * di"
    "cells ?hb (brk h + 5) = (d 3 * d 2 - d 0 * d 5) * di"
    "cells ?hb (brk h + 6) = (d 3 * d 7 - d 6 * d 4) * di"
    "cells ?hb (brk h + 7) = (d 6 * d 1 - d 0 * d 7) * di"
    "cells ?hb (brk h + 8) = (d 0 * d 4 - d 3 * d 1) * di"
    by (simp_all add: cells1 G_def inverse3_terms_def di_def D_def)
  ultimately show ?thesis using run by blast
qed

section \<open>The inverse of a 3 by 3 matrix times the matrix\<close>

lemma all_less_3: "(\<forall>r<3. Q r) \<longleftrightarrow> Q (0::nat) \<and> Q 1 \<and> Q 2"
  by (auto simp: numeral_3_eq_3 numeral_2_eq_2 less_Suc_eq)

lemma elem_at: "elem h M r c = cells h (data M + (r * nCols M + c))"
  by (simp add: elem_def add.assoc)

text \<open>
  Claim C2. For a valid 3 by 3 matrix \<open>M\<close> with nonzero determinant, \<^verbatim>\<open>inverse\<close>
  returns the matrix of the cofactors of \<open>M\<close>, transposed and divided by the determinant
  (the closed form; the eigensolver is not called); the product of that matrix with
  \<open>M\<close> is the 3 by 3 identity, exactly; and the elements of \<open>M\<close> are the same before
  the calls, after \<^verbatim>\<open>inverse\<close> and after \<^verbatim>\<open>multiply\<close>.
\<close>

theorem inverse3_times_matrix:
  fixes h :: "real heap"
  assumes "valid h M" and "nRows M = 3" and "nCols M = 3" and "det3 h M \<noteq> 0"
  shows "\<exists>Minv h1 P h2.
           inverse_matrix solver sorter threshold M h = ok (Minv, h1) \<and>
           (\<forall>r<3. \<forall>c<3. elem h1 Minv r c = cofactor3 h M c r * (1 / det3 h M)) \<and>
           multiply Minv M h1 = ok (P, h2) \<and> nRows P = 3 \<and> nCols P = 3 \<and>
           (\<forall>r<3. \<forall>c<3. elem h2 P r c = (if r = c then 1 else 0)) \<and>
           (\<forall>r<3. \<forall>c<3. elem h1 M r c = elem h M r c \<and> elem h2 M r c = elem h M r c)"
proof -
  define d where "d i = cells h (data M + i)" for i
  define D where "D = d 0 * (d 4 * d 8 - d 7 * d 5) - d 1 * (d 3 * d 8 - d 5 * d 6) + d 2 * (d 3 * d 7 - d 4 * d 6)"
  let ?Mi = "\<lparr>nRows = 3, nCols = 3, data = brk h\<rparr>"
  have v: "data M + 9 \<le> brk h" using assms(1,2,3) by (simp add: valid_def)
  from inverse3_run[OF v assms(2,3), of solver sorter threshold, folded d_def, folded D_def]
  obtain h1 where h1: "inverse_matrix solver sorter threshold M h = ok (?Mi, h1)" "brk h1 = brk h + 9"
    "\<And>p. p < brk h \<Longrightarrow> cells h1 p = cells h p"
    "cells h1 (brk h + 0) = (d 4 * d 8 - d 7 * d 5) * (1 / D)"
    "cells h1 (brk h + 1) = (d 2 * d 7 - d 1 * d 8) * (1 / D)"
    "cells h1 (brk h + 2) = (d 1 * d 5 - d 2 * d 4) * (1 / D)"
    "cells h1 (brk h + 3) = (d 5 * d 6 - d 3 * d 8) * (1 / D)"
    "cells h1 (brk h + 4) = (d 0 * d 8 - d 2 * d 6) * (1 / D)"
    "cells h1 (brk h + 5) = (d 3 * d 2 - d 0 * d 5) * (1 / D)"
    "cells h1 (brk h + 6) = (d 3 * d 7 - d 6 * d 4) * (1 / D)"
    "cells h1 (brk h + 7) = (d 6 * d 1 - d 0 * d 7) * (1 / D)"
    "cells h1 (brk h + 8) = (d 0 * d 4 - d 3 * d 1) * (1 / D)"
    by blast
  have eM: "elem h M 0 0 = d 0" "elem h M 0 1 = d 1" "elem h M 0 2 = d 2"
    "elem h M 1 0 = d 3" "elem h M 1 1 = d 4" "elem h M 1 2 = d 5"
    "elem h M 2 0 = d 6" "elem h M 2 1 = d 7" "elem h M 2 2 = d 8"
    by (simp_all add: elem_at d_def assms(3))
  have fr1: "elem h1 M r c = elem h M r c" if "r < 3" "c < 3" for r c
  proof -
    have "r * 3 + c < 3 * 3" using that by (rule rc_less)
    then have "data M + (r * 3 + c) < brk h" using v by simp
    then show ?thesis using h1(3) by (simp add: elem_at assms(3))
  qed
  have eMi: "elem h1 ?Mi 0 0 = (d 4 * d 8 - d 7 * d 5) * (1 / D)"
    "elem h1 ?Mi 0 1 = (d 2 * d 7 - d 1 * d 8) * (1 / D)"
    "elem h1 ?Mi 0 2 = (d 1 * d 5 - d 2 * d 4) * (1 / D)"
    "elem h1 ?Mi 1 0 = (d 5 * d 6 - d 3 * d 8) * (1 / D)"
    "elem h1 ?Mi 1 1 = (d 0 * d 8 - d 2 * d 6) * (1 / D)"
    "elem h1 ?Mi 1 2 = (d 3 * d 2 - d 0 * d 5) * (1 / D)"
    "elem h1 ?Mi 2 0 = (d 3 * d 7 - d 6 * d 4) * (1 / D)"
    "elem h1 ?Mi 2 1 = (d 6 * d 1 - d 0 * d 7) * (1 / D)"
    "elem h1 ?Mi 2 2 = (d 0 * d 4 - d 3 * d 1) * (1 / D)"
    using h1(4-12) by (simp_all add: elem_at)
  have mods: "(0 + 1) mod 3 = (1::nat)" "(0 + 2) mod 3 = (2::nat)" "(1 + 1) mod 3 = (2::nat)"
    "(1 + 2) mod 3 = (0::nat)" "(2 + 1) mod 3 = (0::nat)" "(2 + 2) mod 3 = (1::nat)"
    by simp_all
  have cof: "cofactor3 h M 0 0 = d 4 * d 8 - d 7 * d 5" "cofactor3 h M 1 0 = d 2 * d 7 - d 1 * d 8"
    "cofactor3 h M 2 0 = d 1 * d 5 - d 2 * d 4" "cofactor3 h M 0 1 = d 5 * d 6 - d 3 * d 8"
    "cofactor3 h M 1 1 = d 0 * d 8 - d 2 * d 6" "cofactor3 h M 2 1 = d 3 * d 2 - d 0 * d 5"
    "cofactor3 h M 0 2 = d 3 * d 7 - d 6 * d 4" "cofactor3 h M 1 2 = d 6 * d 1 - d 0 * d 7"
    "cofactor3 h M 2 2 = d 0 * d 4 - d 3 * d 1"
    by (simp_all only: cofactor3_def mods eM) (simp_all add: algebra_simps)?
  have det: "det3 h M = D"
    by (simp only: det3_def cof eM D_def) (simp add: algebra_simps)
  have D0: "D \<noteq> 0" using assms(4) det by simp
  have closed: "\<forall>r<3. \<forall>c<3. elem h1 ?Mi r c = cofactor3 h M c r * (1 / det3 h M)"
    unfolding all_less_3 by (simp only: eMi cof det) simp?
  have vMi: "valid h1 ?Mi" using h1(2) by (simp add: valid_def)
  have vM: "valid h1 M" using assms(1) h1(2) by (simp add: valid_def)
  from multiply_product[OF vMi vM] assms(2)
  obtain h2 where h2: "multiply ?Mi M h1 = ok (\<lparr>nRows = 3, nCols = 3, data = brk h1\<rparr>, h2)"
    "\<And>r c. r < 3 \<Longrightarrow> c < 3 \<Longrightarrow> elem h2 \<lparr>nRows = 3, nCols = 3, data = brk h1\<rparr> r c =
        (\<Sum>k<3. elem h1 ?Mi r k * elem h1 M k c)"
    "\<And>p. p < brk h1 \<Longrightarrow> cells h2 p = cells h1 p"
    by (auto simp: assms(3))
  have s3: "(\<Sum>k<3. f k) = f 0 + f 1 + f (2::nat)" for f :: "nat \<Rightarrow> real"
    by (simp add: numeral_3_eq_3 numeral_2_eq_2)
  have eM1: "elem h1 M 0 0 = d 0" "elem h1 M 0 1 = d 1" "elem h1 M 0 2 = d 2"
    "elem h1 M 1 0 = d 3" "elem h1 M 1 1 = d 4" "elem h1 M 1 2 = d 5"
    "elem h1 M 2 0 = d 6" "elem h1 M 2 1 = d 7" "elem h1 M 2 2 = d 8"
    using fr1[of 0 0] fr1[of 0 1] fr1[of 0 2] fr1[of 1 0] fr1[of 1 1] fr1[of 1 2]
      fr1[of 2 0] fr1[of 2 1] fr1[of 2 2] eM by simp_all
  note alg = inv3_algebra[of "d 0" "d 4" "d 8" "d 7" "d 5" "d 1" "d 3" "d 6" "d 2", folded D_def, OF D0]
  have ident: "\<forall>r<3. \<forall>c<3. elem h2 \<lparr>nRows = 3, nCols = 3, data = brk h1\<rparr> r c = (if r = c then 1 else 0)"
    unfolding all_less_3
    by (simp only: h2(2) s3 eMi eM1 alg) simp?
  have fr2: "elem h2 M r c = elem h M r c" if "r < 3" "c < 3" for r c
  proof -
    have "r * 3 + c < 3 * 3" using that by (rule rc_less)
    then have "data M + (r * 3 + c) < brk h1" using v h1(2) by simp
    then have "elem h2 M r c = elem h1 M r c" using h2(3) by (simp add: elem_at assms(3))
    then show ?thesis using fr1[OF that] by simp
  qed
  show ?thesis
    using h1(1) closed h2(1) ident fr1 fr2 by (intro exI conjI) auto
qed

theorem inverse3_times_matrix_witness:
  "valid (heap_of [2, 0, 1, 3, 1, 0, 0, 4, 1 :: real]) \<lparr>nRows = 3, nCols = 3, data = 0\<rparr> \<and>
   det3 (heap_of [2, 0, 1, 3, 1, 0, 0, 4, 1 :: real]) \<lparr>nRows = 3, nCols = 3, data = 0\<rparr> = 14 \<and>
   (\<exists>Minv h1 P h2.
      inverse_matrix failing_solver (sort_key valueReal) default_threshold
        \<lparr>nRows = 3, nCols = 3, data = 0\<rparr> (heap_of [2, 0, 1, 3, 1, 0, 0, 4, 1])
        = ok (Minv, h1) \<and>
      multiply Minv \<lparr>nRows = 3, nCols = 3, data = 0\<rparr> h1 = ok (P, h2) \<and>
      elem h1 Minv 0 0 = 1 / 14 \<and>
      elem h2 P 0 0 = 1 \<and> elem h2 P 0 1 = 0 \<and> elem h2 P 2 2 = 1 \<and>
      elem h2 \<lparr>nRows = 3, nCols = 3, data = 0\<rparr> 2 1 = 4)"
proof -
  let ?h = "heap_of [2, 0, 1, 3, 1, 0, 0, 4, 1 :: real]"
  let ?M = "\<lparr>nRows = 3, nCols = 3, data = 0\<rparr>"
  have v: "valid ?h ?M" by (simp add: valid_def heap_of_def)
  have e: "elem ?h ?M 0 0 = 2" "elem ?h ?M 0 1 = 0" "elem ?h ?M 0 2 = 1"
    "elem ?h ?M 1 0 = 3" "elem ?h ?M 1 1 = 1" "elem ?h ?M 1 2 = 0"
    "elem ?h ?M 2 0 = 0" "elem ?h ?M 2 1 = 4" "elem ?h ?M 2 2 = 1"
    by (simp_all add: elem_at heap_of_def)
  have mods: "(0 + 1) mod 3 = (1::nat)" "(0 + 2) mod 3 = (2::nat)" "(1 + 1) mod 3 = (2::nat)"
    "(1 + 2) mod 3 = (0::nat)" "(2 + 1) mod 3 = (0::nat)" "(2 + 2) mod 3 = (1::nat)"
    by simp_all
  have c: "cofactor3 ?h ?M 0 0 = 1" "cofactor3 ?h ?M 0 1 = -3" "cofactor3 ?h ?M 0 2 = 12"
    by (simp_all only: cofactor3_def mods e) simp_all?
  have det: "det3 ?h ?M = 14"
    by (simp only: det3_def c e) simp?
  then have nz: "det3 ?h ?M \<noteq> 0" by simp
  from inverse3_times_matrix[OF v _ _ nz, of failing_solver "sort_key valueReal" default_threshold]
  obtain Minv h1 P h2 where r: "inverse_matrix failing_solver (sort_key valueReal) default_threshold ?M ?h = ok (Minv, h1)"
    "\<And>r c. r < 3 \<Longrightarrow> c < 3 \<Longrightarrow> elem h1 Minv r c = cofactor3 ?h ?M c r * (1 / det3 ?h ?M)"
    "multiply Minv ?M h1 = ok (P, h2)"
    "\<And>r c. r < 3 \<Longrightarrow> c < 3 \<Longrightarrow> elem h2 P r c = (if r = c then 1 else 0)"
    "\<And>r c. r < 3 \<Longrightarrow> c < 3 \<Longrightarrow> elem h2 ?M r c = elem ?h ?M r c"
    by auto
  have "elem h1 Minv 0 0 = 1 / 14" using r(2)[of 0 0] by (simp only: c det) simp?
  moreover have "elem h2 P 0 0 = 1" "elem h2 P 0 1 = 0" "elem h2 P 2 2 = 1"
    using r(4)[of 0 0] r(4)[of 0 1] r(4)[of 2 2] by simp_all
  moreover have "elem h2 ?M 2 1 = 4" using r(5)[of 2 1] e by simp
  ultimately show ?thesis using v det r(1,3) by blast
qed


section \<open>Comparison within a tolerance\<close>

lemma equal_loop_iff:
  "equal_loop k p1 p2 pred h \<longleftrightarrow> (\<forall>i<k. pred (cells h (p1 + i)) (cells h (p2 + i)))"
proof (induction k arbitrary: p1 p2)
  case 0
  then show ?case by simp
next
  case (Suc k)
  have "(\<forall>i<Suc k. pred (cells h (p1 + i)) (cells h (p2 + i))) \<longleftrightarrow>
        pred (cells h p1) (cells h p2) \<and> (\<forall>i<k. pred (cells h (p1 + 1 + i)) (cells h (p2 + 1 + i)))"
    by (auto simp: less_Suc_eq_0_disj)
  then show ?case using Suc.IH[of "p1 + 1" "p2 + 1"] by auto
qed

lemma all_elems_iff:
  "(\<forall>i<R * C. Q i) \<longleftrightarrow> (\<forall>r<R. \<forall>c<C. Q (r * C + (c::nat)))"
proof
  assume a: "\<forall>i<R * C. Q i"
  show "\<forall>r<R. \<forall>c<C. Q (r * C + c)"
  proof (intro allI impI)
    fix r c assume "r < R" "c < C"
    then have "r * C + c < R * C" by (rule rc_less)
    then show "Q (r * C + c)" using a by blast
  qed
next
  assume a: "\<forall>r<R. \<forall>c<C. Q (r * C + c)"
  show "\<forall>i<R * C. Q i"
  proof (intro allI impI)
    fix i assume "i < R * C"
    then obtain r c where "r < R" "c < C" "i = r * C + c" by (rule index_split)
    then show "Q i" using a by blast
  qed
qed

lemma std_equal_elems:
  assumes "nRows M = nRows other" "nCols M = nCols other"
  shows "std_equal (cbegin M) (cend M) (cbegin other) pred h \<longleftrightarrow>
           (\<forall>r<nRows M. \<forall>c<nCols M. pred (elem h M r c) (elem h other r c))"
proof -
  have "std_equal (cbegin M) (cend M) (cbegin other) pred h \<longleftrightarrow>
      (\<forall>i<nRows M * nCols M. pred (cells h (data M + i)) (cells h (data other + i)))"
    by (simp add: std_equal_def cbegin_def cend_def equal_loop_iff)
  also have "\<dots> \<longleftrightarrow> (\<forall>r<nRows M. \<forall>c<nCols M.
      pred (cells h (data M + (r * nCols M + c))) (cells h (data other + (r * nCols M + c))))"
    by (rule all_elems_iff)
  finally show ?thesis using assms by (simp add: elem_at)
qed

text \<open>
  Claim C6. For two matrices of the same dimensions, \<^verbatim>\<open>almostEquals\<close> returns whether for
  every pair of corresponding elements \<open>a\<close> and \<open>b\<close> the difference \<open>a - b\<close>, as the element
  type computes it, is strictly less than the tolerance and strictly greater than the
  negated tolerance; in the version for complex elements the differences of the real
  parts and of the imaginary parts are compared separately, against the real part of the
  tolerance. For two matrices of different dimensions both versions raise the runtime
  error of \<^verbatim>\<open>assertSameSize\<close> and return no value.
\<close>

theorem almostEquals_spec:
  fixes h :: "'a::{minus,uminus,ord} heap" and g :: "'b::{minus,uminus,ord} std_complex heap"
  shows
  "(nRows M = nRows other \<and> nCols M = nCols other \<longrightarrow>
      almostEquals M other tol h =
        ok (\<forall>r<nRows M. \<forall>c<nCols M.
              elem h M r c - elem h other r c < tol \<and> elem h M r c - elem h other r c > - tol) \<and>
      almostEquals_complex M other ctol g =
        ok (\<forall>r<nRows M. \<forall>c<nCols M.
              real_part (elem g M r c) - real_part (elem g other r c) < real_part ctol \<and>
              real_part (elem g M r c) - real_part (elem g other r c) > - real_part ctol \<and>
              imag_part (elem g M r c) - imag_part (elem g other r c) < real_part ctol \<and>
              imag_part (elem g M r c) - imag_part (elem g other r c) > - real_part ctol)) \<and>
   (nRows M \<noteq> nRows other \<or> nCols M \<noteq> nCols other \<longrightarrow>
      almostEquals M other tol h =
        fail (runtime_error ''Attepting to compare matrices of different sizes!'') \<and>
      almostEquals_complex M other ctol g =
        fail (runtime_error ''Attepting to compare matrices of different sizes!''))"
proof (intro conjI impI)
  assume a: "nRows M = nRows other \<and> nCols M = nCols other"
  then have s: "assertSameSize M other = ok ()" by (simp add: assertSameSize_def)
  show "almostEquals M other tol h =
        ok (\<forall>r<nRows M. \<forall>c<nCols M.
              elem h M r c - elem h other r c < tol \<and> elem h M r c - elem h other r c > - tol)"
    using a by (simp add: almostEquals_def s std_equal_elems)
  show "almostEquals_complex M other ctol g =
        ok (\<forall>r<nRows M. \<forall>c<nCols M.
              real_part (elem g M r c) - real_part (elem g other r c) < real_part ctol \<and>
              real_part (elem g M r c) - real_part (elem g other r c) > - real_part ctol \<and>
              imag_part (elem g M r c) - imag_part (elem g other r c) < real_part ctol \<and>
              imag_part (elem g M r c) - imag_part (elem g other r c) > - real_part ctol)"
    using a by (simp add: almostEquals_complex_def s std_equal_elems Let_def)
next
  assume "nRows M \<noteq> nRows other \<or> nCols M \<noteq> nCols other"
  then have s: "assertSameSize M other =
      fail (runtime_error ''Attepting to compare matrices of different sizes!'')"
    by (simp add: assertSameSize_def)
  show "almostEquals M other tol h =
        fail (runtime_error ''Attepting to compare matrices of different sizes!'')"
    by (simp add: almostEquals_def s)
  show "almostEquals_complex M other ctol g =
        fail (runtime_error ''Attepting to compare matrices of different sizes!'')"
    by (simp add: almostEquals_complex_def s)
qed

theorem almostEquals_spec_witness:
  "almostEquals \<lparr>nRows = 1, nCols = 2, data = 0\<rparr> \<lparr>nRows = 1, nCols = 2, data = 2\<rparr> (1 / 2)
     (heap_of [1, 2, 5 / 4, 2 :: real]) = ok True \<and>
   almostEquals \<lparr>nRows = 1, nCols = 2, data = 0\<rparr> \<lparr>nRows = 1, nCols = 2, data = 2\<rparr> (1 / 4)
     (heap_of [1, 2, 5 / 4, 2 :: real]) = ok False \<and>
   almostEquals_complex \<lparr>nRows = 1, nCols = 2, data = 0\<rparr> \<lparr>nRows = 1, nCols = 2, data = 2\<rparr>
     \<lparr>real_part = 1 / 2, imag_part = 0\<rparr>
     \<lparr>cells = (\<lambda>p. if p = 1 then \<lparr>real_part = 0, imag_part = 1\<rparr>
                    else if p = 3 then \<lparr>real_part = 0, imag_part = 2\<rparr>
                    else \<lparr>real_part = 1, imag_part = 0 :: real\<rparr>), brk = 4\<rparr> = ok False \<and>
   almostEquals \<lparr>nRows = 1, nCols = 2, data = 0\<rparr> \<lparr>nRows = 2, nCols = 1, data = 2\<rparr> (1 / 2)
     (heap_of [1, 2, 1, 2 :: real]) =
     fail (runtime_error ''Attepting to compare matrices of different sizes!'')"
proof -
  let ?A = "\<lparr>nRows = 1, nCols = 2, data = 0\<rparr>" and ?B = "\<lparr>nRows = 1, nCols = 2, data = 2\<rparr>"
    and ?B' = "\<lparr>nRows = 2, nCols = 1, data = 2\<rparr>"
  let ?g = "\<lparr>cells = (\<lambda>p. if p = 1 then \<lparr>real_part = 0, imag_part = 1\<rparr>
                    else if p = 3 then \<lparr>real_part = 0, imag_part = 2\<rparr>
                    else \<lparr>real_part = 1, imag_part = 0 :: real\<rparr>), brk = 4\<rparr>"
  let ?t = "\<lparr>real_part = 1 / 2, imag_part = 0 :: real\<rparr>"
  have l2: "(\<forall>c<2. Q c) \<longleftrightarrow> Q (0::nat) \<and> Q 1" for Q
    by (auto simp: numeral_2_eq_2 less_Suc_eq)
  have 1: "almostEquals ?A ?B (1 / 2) (heap_of [1, 2, 5 / 4, 2 :: real]) = ok True"
    using almostEquals_spec[of ?A ?B "1 / 2" "heap_of [1, 2, 5 / 4, 2 :: real]" ?t ?g]
    by (simp add: l2 elem_at heap_of_def)
  have 2: "almostEquals ?A ?B (1 / 4) (heap_of [1, 2, 5 / 4, 2 :: real]) = ok False"
    using almostEquals_spec[of ?A ?B "1 / 4" "heap_of [1, 2, 5 / 4, 2 :: real]" ?t ?g]
    by (simp add: l2 elem_at heap_of_def)
  have 3: "almostEquals_complex ?A ?B ?t ?g = ok False"
    using almostEquals_spec[of ?A ?B "1 / 2" "heap_of [1, 2, 5 / 4, 2 :: real]" ?t ?g]
    by (simp add: l2 elem_at)
  have 4: "almostEquals ?A ?B' (1 / 2) (heap_of [1, 2, 1, 2 :: real]) =
      fail (runtime_error ''Attepting to compare matrices of different sizes!'')"
    using almostEquals_spec[of ?A ?B' "1 / 2" "heap_of [1, 2, 1, 2 :: real]" ?t ?g]
    by simp
  show ?thesis using 1 2 3 4 by (intro conjI)
qed

text \<open>
  The difference that is compared is the rounded one. In double precision \<open>1 - 2\<^sup>-\<^sup>6\<^sup>0\<close> is
  rounded to 1, which is not less than the tolerance 1, so the matrices \<open>(1)\<close> and
  \<open>(2\<^sup>-\<^sup>6\<^sup>0)\<close> are found different although their elements differ by less than 1.
\<close>

theorem almostEquals_rounded_difference:
  "almostEquals \<lparr>nRows = 1, nCols = 1, data = 0\<rparr> \<lparr>nRows = 1, nCols = 1, data = 1\<rparr> (Binary64 1)
     (heap_of [Binary64 1, Binary64 (1 / 2 ^ 60)]) = ok False \<and>
   \<bar>value_of (Binary64 1) - value_of (Binary64 (1 / 2 ^ 60))\<bar> < value_of (Binary64 1)"
proof -
  let ?A = "\<lparr>nRows = 1, nCols = 1, data = 0\<rparr>" and ?B = "\<lparr>nRows = 1, nCols = 1, data = 1\<rparr>"
  define h where "h = heap_of [Binary64 1, Binary64 (1 / 2 ^ 60)]"
  have c: "cells h 0 = Binary64 1" "cells h (Suc 0) = Binary64 (1 / 2 ^ 60)"
    by (simp_all add: h_def heap_of_def)
  have d: "cells h 0 - cells h (Suc 0) = Binary64 1"
    unfolding c minus_binary64_def binary64.sel by (simp only: round_near_one)
  have "std_equal (cbegin ?A) (cend ?A) (cbegin ?B)
      (\<lambda>a b. a - b < Binary64 1 \<and> a - b > - Binary64 1) h = False"
    unfolding std_equal_def cbegin_def cend_def
    by (simp add: d less_binary64_def)
  then have "almostEquals ?A ?B (Binary64 1) h = ok False"
    by (simp add: almostEquals_def assertSameSize_def)
  then show ?thesis unfolding h_def by simp
qed

section \<open>The transposed copy\<close>

lemma clone_eq:
  fixes h :: "'a::zero heap"
  assumes "data M + nRows M * nCols M \<le> brk h" and sz: "nRows M * nCols M < 2 ^ 64"
  shows "fst (clone M h) = \<lparr>nRows = nRows M, nCols = nCols M, data = brk h\<rparr>"
    and "brk (snd (clone M h)) = brk h + nRows M * nCols M"
    and "\<And>p. p < brk h \<Longrightarrow> cells (snd (clone M h)) p = cells h p"
    and "\<And>i. i < nRows M * nCols M \<Longrightarrow> cells (snd (clone M h)) (brk h + i) = cells h (data M + i)"
    and "\<And>p. brk h + nRows M * nCols M \<le> p \<Longrightarrow> cells (snd (clone M h)) p = cells h p"
proof -
  let ?n = "nRows M * nCols M"
  have c: "clone M h = (\<lparr>nRows = nRows M, nCols = nCols M, data = brk h\<rparr>,
      copy (data M) (data M + ?n) (brk h) (snd (allocate ?n h)))"
    by (simp add: clone_def Matrix_ctor_eq[OF sz] cbegin_def cend_def)
  have cc: "cells (copy (data M) (data M + ?n) (brk h) (snd (allocate ?n h))) q =
      (if brk h \<le> q \<and> q < brk h + ?n then cells h (data M + (q - brk h)) else cells h q)" for q
  proof -
    have "cells (copy (data M) (data M + ?n) (brk h) (snd (allocate ?n h))) q =
      (if brk h \<le> q \<and> q < brk h + (data M + ?n - data M)
       then cells (snd (allocate ?n h)) (data M + (q - brk h)) else cells (snd (allocate ?n h)) q)"
      by (rule cells_copy) (use assms(1) in simp)
    then show ?thesis using assms(1) by auto
  qed
  show "fst (clone M h) = \<lparr>nRows = nRows M, nCols = nCols M, data = brk h\<rparr>" by (simp add: c)
  show "brk (snd (clone M h)) = brk h + ?n" by (simp add: c)
  show "\<And>p. p < brk h \<Longrightarrow> cells (snd (clone M h)) p = cells h p" by (simp add: c cc)
  show "\<And>i. i < ?n \<Longrightarrow> cells (snd (clone M h)) (brk h + i) = cells h (data M + i)" by (simp add: c cc)
  show "\<And>p. brk h + ?n \<le> p \<Longrightarrow> cells (snd (clone M h)) p = cells h p" by (simp add: c cc)
qed

lemma transpose_matrix_ok:
  fixes h :: "'a::zero heap"
  assumes v: "data M + nRows M * nCols M \<le> brk h" and R: "0 < nRows M" and C: "0 < nCols M"
    and bound: "nRows M * (nRows M * nCols M) \<le> 2147483647"
  shows "\<exists>h'. transpose_matrix M h = ok (\<lparr>nRows = nCols M, nCols = nRows M, data = brk h\<rparr>, h') \<and>
           brk h' = brk h + nRows M * nCols M \<and>
           (\<forall>r<nRows M. \<forall>c<nCols M.
              elem h' \<lparr>nRows = nCols M, nCols = nRows M, data = brk h\<rparr> c r = elem h M r c) \<and>
           (\<forall>p<brk h. cells h' p = cells h p)"
proof -
  let ?N = "\<lparr>nRows = nRows M, nCols = nCols M, data = brk h\<rparr>"
  let ?T = "\<lparr>nRows = nCols M, nCols = nRows M, data = brk h\<rparr>"
  let ?hc = "snd (clone M h)"
  have sz: "nRows M * nCols M < 2 ^ 64" using R bound by (rule size_from_cube)
  note cl = clone_eq[OF v sz]
  have run: "transpose_matrix M h = transposeInPlace ?N ?hc"
    using cl(1) by (simp add: transpose_matrix_def case_prod_beta)
  have tp: "transposeInPlace ?N ?hc = ok (?N\<lparr>nCols := nRows ?N, nRows := nCols ?N\<rparr>, transposed ?N ?hc)"
    by (rule transposeInPlace_ok) (use R C bound in simp_all)
  have T: "?N\<lparr>nCols := nRows ?N, nRows := nCols ?N\<rparr> = ?T" by simp
  have el: "elem (transposed ?N ?hc) ?T c r = elem h M r c" if "r < nRows M" "c < nCols M" for r c
  proof -
    have "elem (transposed ?N ?hc) (?N\<lparr>nCols := nRows ?N, nRows := nCols ?N\<rparr>) c r = elem ?hc ?N r c"
      by (rule elem_transposed) (use that in simp_all)
    moreover have "r * nCols M + c < nRows M * nCols M" using that by (rule rc_less)
    then have "elem ?hc ?N r c = elem h M r c" using cl(4) by (simp add: elem_at)
    ultimately show ?thesis by (simp only: T)
  qed
  have fr: "cells (transposed ?N ?hc) p = cells h p" if "p < brk h" for p
    using that cl(3) by (simp add: transposed_def)
  have "brk (transposed ?N ?hc) = brk h + nRows M * nCols M" using cl(2) by (simp add: transposed_def)
  then show ?thesis using run tp T el fr by auto
qed

lemma transpose_transpose:
  fixes h :: "'a::zero heap"
  assumes v: "data M + nRows M * nCols M \<le> brk h" and R: "0 < nRows M" and C: "0 < nCols M"
    and b1: "nRows M * (nRows M * nCols M) \<le> 2147483647"
    and b2: "nCols M * (nCols M * nRows M) \<le> 2147483647"
  shows "\<exists>T h1 T2 h2. transpose_matrix M h = ok (T, h1) \<and> transpose_matrix T h1 = ok (T2, h2) \<and>
           nRows T2 = nRows M \<and> nCols T2 = nCols M \<and>
           (\<forall>r<nRows M. \<forall>c<nCols M. elem h2 T2 r c = elem h M r c \<and> elem h2 M r c = elem h M r c)"
proof -
  let ?T = "\<lparr>nRows = nCols M, nCols = nRows M, data = brk h\<rparr>"
  from transpose_matrix_ok[OF v R C b1]
  obtain h1 where h1: "transpose_matrix M h = ok (?T, h1)" "brk h1 = brk h + nRows M * nCols M"
    "\<And>r c. r < nRows M \<Longrightarrow> c < nCols M \<Longrightarrow> elem h1 ?T c r = elem h M r c"
    "\<And>p. p < brk h \<Longrightarrow> cells h1 p = cells h p" by blast
  let ?T2 = "\<lparr>nRows = nRows M, nCols = nCols M, data = brk h1\<rparr>"
  have vT: "data ?T + nRows ?T * nCols ?T \<le> brk h1" using h1(2) by (simp add: mult.commute)
  from transpose_matrix_ok[OF vT, of ] C R b2
  obtain h2 where h2: "transpose_matrix ?T h1 = ok (?T2, h2)"
    "\<And>r c. r < nCols M \<Longrightarrow> c < nRows M \<Longrightarrow> elem h2 ?T2 c r = elem h1 ?T r c"
    "\<And>p. p < brk h1 \<Longrightarrow> cells h2 p = cells h1 p" by auto
  have "elem h2 ?T2 r c = elem h M r c \<and> elem h2 M r c = elem h M r c"
    if rc: "r < nRows M" "c < nCols M" for r c
  proof -
    have "r * nCols M + c < nRows M * nCols M" using rc by (rule rc_less)
    then have lt: "data M + (r * nCols M + c) < brk h" using v by simp
    then have "cells h2 (data M + (r * nCols M + c)) = cells h (data M + (r * nCols M + c))"
      using h2(3)[of "data M + (r * nCols M + c)"] h1(4)[of "data M + (r * nCols M + c)"] h1(2) by simp
    then show ?thesis using h2(2)[OF rc(2) rc(1)] h1(3)[OF rc] by (simp add: elem_at)
  qed
  then show ?thesis using h1(1) h2(1) by (intro exI[of _ ?T] exI[of _ h1] exI[of _ ?T2] exI[of _ h2]) simp
qed

text \<open>
  Claim C8 says that \<^verbatim>\<open>transpose(transpose(M))\<close> equals \<open>M\<close> for every matrix. Lemma
  \<open>transpose_transpose\<close> shows it for every valid matrix that has at least one
  element and for which neither transposition overflows. It fails outside that range:
  for the matrix without rows and columns the copy is handed to
  \<^verbatim>\<open>transposeMemoryInPlace\<close> with \<open>m = 0\<close>, which divides by \<open>m\<close>; for a matrix without
  rows the loop \<^verbatim>\<open>while (++cycle != last)\<close> steps over \<^verbatim>\<open>last\<close> and reads
  \<^verbatim>\<open>visited\<close> out of range; and a matrix of 46341 rows and 2 columns overflows the
  \<^verbatim>\<open>int\<close> arithmetic. In each case \<^verbatim>\<open>transpose\<close> returns no matrix.
\<close>

theorem transpose_fails_on_empty_and_large:
  "transpose_matrix \<lparr>nRows = 0, nCols = 0, data = 0\<rparr> (heap_of ([] :: real list)) = fail DivisionByZero \<and>
   transpose_matrix \<lparr>nRows = 0, nCols = 3, data = 0\<rparr> (heap_of ([] :: real list)) = fail OutOfRange \<and>
   transpose_matrix \<lparr>nRows = 46341, nCols = 2, data = 0\<rparr> (heap_of (replicate 92682 (0 :: real)))
     = fail IntRange"
proof (intro conjI)
  show "transpose_matrix \<lparr>nRows = 0, nCols = 0, data = 0\<rparr> (heap_of ([] :: real list)) = fail DivisionByZero"
    by (simp add: transpose_matrix_def clone_def Matrix_ctor_eq transposeInPlace_def
        transposeMemoryInPlace_def cbegin_def cend_def int_ok_def INT_MAX_def Let_def)
  show "transpose_matrix \<lparr>nRows = 0, nCols = 3, data = 0\<rparr> (heap_of ([] :: real list)) = fail OutOfRange"
    apply (simp add: transpose_matrix_def clone_def Matrix_ctor_eq transposeInPlace_def
        transposeMemoryInPlace_def cbegin_def cend_def int_ok_def INT_MAX_def Let_def)
    apply (subst cycle_scan.simps)
    apply (simp add: andThen_def fail_def)
    done
  show "transpose_matrix \<lparr>nRows = 46341, nCols = 2, data = 0\<rparr> (heap_of (replicate 92682 (0 :: real)))
     = fail IntRange"
    by (simp add: transpose_matrix_def clone_def Matrix_ctor_eq case_prod_beta
        transposeInPlace_overflow_any)
qed

section \<open>Diagonalisation\<close>

lemma fold_snoc_map: "fold (\<lambda>i xs. xs @ [f i]) is ys = ys @ map f is"
  by (induction "is" arbitrary: ys) simp_all

lemma diag_prepared_cells:
  assumes sq: "nRows M = nCols M" and v: "data M + nRows M * nCols M \<le> brk h"
  defines "n \<equiv> nRows M"
  shows "brk (diag_prepared M h) = brk h + n + n + n * n + n * n"
    and "\<And>p. p < brk h \<Longrightarrow> cells (diag_prepared M h) p = cells h p"
    and "\<And>i. i < n + n + n * n \<Longrightarrow> cells (diag_prepared M h) (brk h + i) = 0"
    and "\<And>i. i < n * n \<Longrightarrow> cells (diag_prepared M h) (brk h + n + n + n * n + i) = cells h (data M + i)"
proof -
  let ?h1 = "snd (allocate (n * 1) h)"
  let ?h2 = "snd (allocate (n * 1) ?h1)"
  let ?h3 = "snd (allocate (n * n) ?h2)"
  let ?h4 = "snd (allocate (n * n) ?h3)"
  have dp: "diag_prepared M h = copy (data M) (data M + n * n) (brk ?h3) ?h4"
    using sq by (simp add: diag_prepared_def n_def Let_def)
  have b3: "brk ?h3 = brk h + n + n + n * n" by simp
  have cc: "cells (diag_prepared M h) q =
      (if brk ?h3 \<le> q \<and> q < brk ?h3 + (data M + n * n - data M)
       then cells ?h4 (data M + (q - brk ?h3)) else cells ?h4 q)" for q
    unfolding dp by (rule cells_copy) (use v sq in \<open>simp add: n_def\<close>)
  show "brk (diag_prepared M h) = brk h + n + n + n * n + n * n" by (simp add: dp)
  show "\<And>p. p < brk h \<Longrightarrow> cells (diag_prepared M h) p = cells h p" by (simp add: cc)
  show "\<And>i. i < n + n + n * n \<Longrightarrow> cells (diag_prepared M h) (brk h + i) = 0" by (simp add: cc)
  show "\<And>i. i < n * n \<Longrightarrow> cells (diag_prepared M h) (brk h + n + n + n * n + i) = cells h (data M + i)"
    using v sq by (simp add: cc n_def)
qed

lemma peek_cong: "(\<And>i. i < n \<Longrightarrow> cells h (p + i) = cells h' (q + i)) \<Longrightarrow> peek p n h = peek q n h'"
  by (simp add: peek_def)

lemma collect_eigenTuples_eq:
  assumes "n \<le> 2147483647"
  shows "collect_eigenTuples evalsReal evalsImag evecs n h = ok (diag_tuples evalsReal evalsImag evecs n h)"
proof -
  have "collect_eigenTuples evalsReal evalsImag evecs n h =
      ok (fold (\<lambda>val xs. xs @ [\<lparr>valueReal = cells h (data evalsReal + val * nCols evalsReal + 0),
                  valueImag = cells h (data evalsImag + val * nCols evalsImag + 0),
                  vector = data evecs + val * nCols evecs\<rparr>]) [0..<n] [])"
    unfolding collect_eigenTuples_def by (rule for_int_pure) (use assms in simp_all)
  then show ?thesis by (simp only: fold_snoc_map diag_tuples_def append_Nil)
qed

lemma store_eigenTuples_eq:
  assumes "n \<le> 2147483647"
  shows "store_eigenTuples ts evalsReal evalsImag scratch n nc h =
           ok (fold (diag_writeback ts evalsReal evalsImag scratch nc) [0..<n] h)"
  unfolding store_eigenTuples_def
  by (rule for_int_pure) (use assms in \<open>simp_all add: diag_writeback_def Let_def\<close>)

lemma diagonalize_unfold:
  fixes h :: "'a::zero heap"
  assumes sq: "nRows M = nCols M" and v: "data M + nRows M * nCols M \<le> brk h"
    and nb: "nRows M \<le> 2147483647"
  defines "n \<equiv> nRows M"
  defines "er \<equiv> \<lparr>nRows = n, nCols = 1, data = brk h\<rparr>"
    and "ei \<equiv> \<lparr>nRows = n, nCols = 1, data = brk h + n\<rparr>"
    and "ev \<equiv> \<lparr>nRows = n, nCols = n, data = brk h + n + n\<rparr>"
  shows "diagonalize solver sorter order M h =
    (if \<not> int_ok (diag_lwork solver M h) then fail IntRange
     else if diag_lwork solver M h < 0 then fail length_error
     else if out_info (diag_result solver M h) \<noteq> 0
       then fail (runtime_error ''Something went wrong during diagonalization!'')
     else
       andThen
         (transposeInPlace ev
            (copy (brk h + n + n + n * n) (brk h + n + n + n * n + n * n) (brk h + n + n)
               (fold (diag_writeback (diag_ordered sorter order (diag_tuples er ei ev n (diag_stored solver M h)))
                        er ei (brk h + n + n + n * n) n)
                  [0..<n] (diag_stored solver M h))))
         (\<lambda>(evecs', h10). ok ((er, ei, evecs'), h10)))"
proof -
  let ?ha = "diag_prepared M h"
  let ?cl = "brk h + n + n + n * n"
  note dp = diag_prepared_cells[OF sq v, folded n_def]
  have pk: "peek ?cl (n * n) ?ha = peek (data M) (n * n) h"
    by (rule peek_cong) (simp add: dp(4))
  have pk2: "peek ?cl (n * n) (snd (allocate k ?ha)) = peek (data M) (n * n) h" for k
    by (rule peek_cong) (simp add: dp(1,4))
  have prep: "copy (data M) (data M + n * n) ?cl
      (snd (allocate (n * n) (snd (allocate (n * n) (snd (allocate n (snd (allocate n h)))))))) = ?ha"
    using sq by (simp add: diag_prepared_def Let_def n_def)
  have lw: "truncate_real (out_work (solver n (peek (data M) (n * n) h) (- 1))) = diag_lwork solver M h"
    by (simp add: diag_lwork_def n_def)
  have rs: "solver n (peek (data M) (n * n) h) (diag_lwork solver M h) = diag_result solver M h"
    by (simp add: diag_result_def n_def)
  have st: "store (brk h + n + n) (out_vl (diag_result solver M h))
           (store (brk h + n) (out_wi (diag_result solver M h))
              (store (brk h) (out_wr (diag_result solver M h))
                 (store ?cl (out_a (diag_result solver M h))
                    (snd (allocate (nat (diag_lwork solver M h)) ?ha))))) = diag_stored solver M h"
    by (simp add: diag_stored_def Let_def n_def)
  have nb': "n \<le> 2147483647" using nb by (simp add: n_def)
  have mc1: "Matrix_ctor n 1 hh = (\<lparr>nRows = n, nCols = 1, data = brk hh\<rparr>, snd (allocate (n * 1) hh))"
    for hh :: "'a heap"
    by (rule Matrix_ctor_small[OF nb']) simp
  have mcn: "Matrix_ctor n n hh = (\<lparr>nRows = n, nCols = n, data = brk hh\<rparr>, snd (allocate (n * n) hh))"
    for hh :: "'a heap"
    by (rule Matrix_ctor_small[OF nb' nb'])
  have ne: "\<not> nRows M \<noteq> n" by (simp add: n_def)
  have nc: "nCols M = n" using sq by (simp add: n_def)
  have nr: "nRows M = n" by (simp add: n_def)
  have mats: "\<lparr>nRows = n, nCols = 1, data = brk h\<rparr> = er" "\<lparr>nRows = n, nCols = 1, data = brk h + n\<rparr> = ei"
    "\<lparr>nRows = n, nCols = n, data = brk h + n + n\<rparr> = ev"
    by (simp_all add: er_def ei_def ev_def)
  have dat: "data er = brk h" "data ei = brk h + n" "data ev = brk h + n + n" "cbegin ev = brk h + n + n"
    by (simp_all add: er_def ei_def ev_def cbegin_def)
  show ?thesis
    unfolding diagonalize_def
    apply (simp only: nc nr ne if_False mc1 mcn prod.case Let_def case_prod_beta
        fst_allocate fst_conv snd_conv mult_1_right brk_allocate call_diagonalizer_def mats)
    apply (simp only: dat prep pk pk2 lw rs st collect_eigenTuples_eq[OF nb'] store_eigenTuples_eq[OF nb']
        andThen_ok diag_ordered_def[symmetric])
    apply simp
    done
qed

lemma diag_stored_cells:
  assumes sq: "nRows M = nCols M" and v: "data M + nRows M * nCols M \<le> brk h"
    and wb: "well_behaved solver M h"
  defines "n \<equiv> nRows M" and "res \<equiv> diag_result solver M h"
  shows "brk (diag_stored solver M h) = brk h + n + n + n * n + n * n + nat (diag_lwork solver M h)"
    and "\<And>p. p < brk h \<Longrightarrow> cells (diag_stored solver M h) p = cells h p"
    and "\<And>k. k < n \<Longrightarrow> cells (diag_stored solver M h) (brk h + k) = out_wr res ! k"
    and "\<And>k. k < n \<Longrightarrow> cells (diag_stored solver M h) (brk h + n + k) = out_wi res ! k"
    and "\<And>i. i < n * n \<Longrightarrow> cells (diag_stored solver M h) (brk h + n + n + i) = out_vl res ! i"
proof -
  note dp = diag_prepared_cells[OF sq v, folded n_def]
  from wb have len: "length (out_a res) = n * n" "length (out_wr res) = n"
    "length (out_wi res) = n" "length (out_vl res) = n * n"
    by (simp_all add: well_behaved_def n_def res_def)
  have ds: "diag_stored solver M h = store (brk h + n + n) (out_vl res)
           (store (brk h + n) (out_wi res)
              (store (brk h) (out_wr res)
                 (store (brk h + n + n + n * n) (out_a res)
                    (snd (allocate (nat (diag_lwork solver M h)) (diag_prepared M h))))))"
    by (simp add: diag_stored_def Let_def n_def res_def)
  show "brk (diag_stored solver M h) = brk h + n + n + n * n + n * n + nat (diag_lwork solver M h)"
    by (simp add: ds dp(1))
  show "\<And>p. p < brk h \<Longrightarrow> cells (diag_stored solver M h) p = cells h p"
    by (simp add: ds cells_store len dp(1,2))
  show "\<And>k. k < n \<Longrightarrow> cells (diag_stored solver M h) (brk h + k) = out_wr res ! k"
    by (simp add: ds cells_store len)
  show "\<And>k. k < n \<Longrightarrow> cells (diag_stored solver M h) (brk h + n + k) = out_wi res ! k"
    by (simp add: ds cells_store len)
  show "\<And>i. i < n * n \<Longrightarrow> cells (diag_stored solver M h) (brk h + n + n + i) = out_vl res ! i"
    by (simp add: ds cells_store len)
qed

lemma diag_writeback_fold:
  fixes hc :: "'a heap"
  assumes len: "length ts = n"
    and vec: "\<And>v. v < n \<Longrightarrow> \<exists>k<n. vector (ts ! v) = b + n + n + k * n"
  defines "er \<equiv> \<lparr>nRows = n, nCols = 1, data = b\<rparr>"
    and "ei \<equiv> \<lparr>nRows = n, nCols = 1, data = b + n\<rparr>"
  defines "hw \<equiv> fold (diag_writeback ts er ei (b + n + n + n * n) n) [0..<n] hc"
  shows "brk hw = brk hc"
    and "\<And>v. v < n \<Longrightarrow> cells hw (b + v) = valueReal (ts ! v)"
    and "\<And>v. v < n \<Longrightarrow> cells hw (b + n + v) = valueImag (ts ! v)"
    and "\<And>v j. v < n \<Longrightarrow> j < n \<Longrightarrow> cells hw (b + n + n + n * n + (v * n + j)) = cells hc (vector (ts ! v) + j)"
    and "\<And>q. q < b \<or> b + n + n + n * n + n * n \<le> q \<Longrightarrow> cells hw q = cells hc q"
proof -
  let ?cl = "b + n + n + n * n"
  define P where "P m hh \<longleftrightarrow> brk hh = brk hc \<and>
      (\<forall>v<m. cells hh (b + v) = valueReal (ts ! v)) \<and>
      (\<forall>v<m. cells hh (b + n + v) = valueImag (ts ! v)) \<and>
      (\<forall>v<m. \<forall>j<n. cells hh (?cl + (v * n + j)) = cells hc (vector (ts ! v) + j)) \<and>
      (\<forall>q. \<not> (b \<le> q \<and> q < b + m) \<and> \<not> (b + n \<le> q \<and> q < b + n + m) \<and>
           \<not> (?cl \<le> q \<and> q < ?cl + m * n) \<longrightarrow> cells hh q = cells hc q)"
    for m and hh :: "'a heap"
  have "P n (fold (diag_writeback ts er ei ?cl n) [0..<n] hc)"
  proof (rule fold_upt_inv)
    show "P 0 hc" by (simp add: P_def)
  next
    fix m hh assume m: "m < n" and p: "P m hh"
    from p have I: "brk hh = brk hc"
      "\<And>v. v < m \<Longrightarrow> cells hh (b + v) = valueReal (ts ! v)"
      "\<And>v. v < m \<Longrightarrow> cells hh (b + n + v) = valueImag (ts ! v)"
      "\<And>v j. v < m \<Longrightarrow> j < n \<Longrightarrow> cells hh (?cl + (v * n + j)) = cells hc (vector (ts ! v) + j)"
      "\<And>q. \<not> (b \<le> q \<and> q < b + m) \<Longrightarrow> \<not> (b + n \<le> q \<and> q < b + n + m) \<Longrightarrow>
           \<not> (?cl \<le> q \<and> q < ?cl + m * n) \<Longrightarrow> cells hh q = cells hc q"
      unfolding P_def by simp_all
    obtain k where k: "k < n" "vector (ts ! m) = b + n + n + k * n" using vec[OF m] by blast
    let ?vec = "vector (ts ! m)"
    let ?hp = "poke (b + n + m) (valueImag (ts ! m)) (poke (b + m) (valueReal (ts ! m)) hh)"
    have kn: "k * n + n \<le> n * n"
    proof -
      have "(k + 1) * n \<le> n * n" using k(1) by (intro mult_le_mono1) simp
      then show ?thesis by (simp add: algebra_simps)
    qed
    have mn: "m * n + n \<le> n * n"
    proof -
      have "(m + 1) * n \<le> n * n" using m by (intro mult_le_mono1) simp
      then show ?thesis by (simp add: algebra_simps)
    qed
    have step: "diag_writeback ts er ei ?cl n m hh = copy ?vec (?vec + n) (?cl + m * n) ?hp"
      by (simp add: diag_writeback_def er_def ei_def)
    have cc: "cells (copy ?vec (?vec + n) (?cl + m * n) ?hp) q =
        (if ?cl + m * n \<le> q \<and> q < ?cl + m * n + n then cells ?hp (?vec + (q - (?cl + m * n))) else cells ?hp q)" for q
    proof -
      have "cells (copy ?vec (?vec + n) (?cl + m * n) ?hp) q =
        (if ?cl + m * n \<le> q \<and> q < ?cl + m * n + (?vec + n - ?vec)
         then cells ?hp (?vec + (q - (?cl + m * n))) else cells ?hp q)"
        by (rule cells_copy) (use k kn in simp)
      then show ?thesis by simp
    qed
    have src: "cells ?hp (?vec + j) = cells hc (?vec + j)" if "j < n" for j
    proof -
      have r: "b + n + n \<le> ?vec + j" "?vec + j < ?cl" using k kn that by simp_all
      then have "cells ?hp (?vec + j) = cells hh (?vec + j)" using m by simp
      also have "\<dots> = cells hc (?vec + j)" using r m by (intro I(5)) simp_all
      finally show ?thesis .
    qed
    show "P (Suc m) (diag_writeback ts er ei ?cl n m hh)"
      unfolding step P_def
    proof (intro conjI allI impI)
      show "brk (copy ?vec (?vec + n) (?cl + m * n) ?hp) = brk hc" using I(1) by simp
    next
      fix v assume v: "v < Suc m"
      have "b + v < ?cl + m * n" using v m by simp
      then show "cells (copy ?vec (?vec + n) (?cl + m * n) ?hp) (b + v) = valueReal (ts ! v)"
        using v m I(2)[of v] by (auto simp: cc less_Suc_eq)
    next
      fix v assume v: "v < Suc m"
      have "b + n + v < ?cl + m * n" using v m by simp
      then show "cells (copy ?vec (?vec + n) (?cl + m * n) ?hp) (b + n + v) = valueImag (ts ! v)"
        using v m I(3)[of v] by (auto simp: cc less_Suc_eq)
    next
      fix v j assume v: "v < Suc m" and j: "j < n"
      show "cells (copy ?vec (?vec + n) (?cl + m * n) ?hp) (?cl + (v * n + j)) = cells hc (vector (ts ! v) + j)"
      proof (cases "v = m")
        case True
        then show ?thesis using j src[OF j] by (simp add: cc)
      next
        case False
        then have vm: "v < m" using v by simp
        then have "v * n + j < m * n" using j by (rule rc_less)
        then have "cells (copy ?vec (?vec + n) (?cl + m * n) ?hp) (?cl + (v * n + j)) = cells hh (?cl + (v * n + j))"
          using m by (simp add: cc)
        then show ?thesis using I(4)[OF vm j] by simp
      qed
    next
      fix q assume q: "\<not> (b \<le> q \<and> q < b + Suc m) \<and> \<not> (b + n \<le> q \<and> q < b + n + Suc m) \<and>
           \<not> (?cl \<le> q \<and> q < ?cl + Suc m * n)"
      have sm: "Suc m * n = m * n + n" by simp
      have nc: "\<not> (?cl + m * n \<le> q \<and> q < ?cl + m * n + n)" using q unfolding sm by linarith
      have "cells (copy ?vec (?vec + n) (?cl + m * n) ?hp) q = cells ?hp q"
        by (simp only: cc nc if_False)
      moreover have "q \<noteq> b + m" "q \<noteq> b + n + m" using q by linarith+
      ultimately have "cells (copy ?vec (?vec + n) (?cl + m * n) ?hp) q = cells hh q" by simp
      also have "\<dots> = cells hc q"
      proof (rule I(5))
        show "\<not> (b \<le> q \<and> q < b + m)" using q by linarith
        show "\<not> (b + n \<le> q \<and> q < b + n + m)" using q by linarith
        show "\<not> (?cl \<le> q \<and> q < ?cl + m * n)" using q unfolding sm by linarith
      qed
      finally show "cells (copy ?vec (?vec + n) (?cl + m * n) ?hp) q = cells hc q" .
    qed
  qed
  then have F: "brk hw = brk hc"
      "\<And>v. v < n \<Longrightarrow> cells hw (b + v) = valueReal (ts ! v)"
      "\<And>v. v < n \<Longrightarrow> cells hw (b + n + v) = valueImag (ts ! v)"
      "\<And>v j. v < n \<Longrightarrow> j < n \<Longrightarrow> cells hw (?cl + (v * n + j)) = cells hc (vector (ts ! v) + j)"
      "\<And>q. \<not> (b \<le> q \<and> q < b + n) \<Longrightarrow> \<not> (b + n \<le> q \<and> q < b + n + n) \<Longrightarrow>
           \<not> (?cl \<le> q \<and> q < ?cl + n * n) \<Longrightarrow> cells hw q = cells hc q"
    unfolding P_def hw_def by simp_all
  show "brk hw = brk hc" by (rule F(1))
  show "\<And>v. v < n \<Longrightarrow> cells hw (b + v) = valueReal (ts ! v)" by (rule F(2))
  show "\<And>v. v < n \<Longrightarrow> cells hw (b + n + v) = valueImag (ts ! v)" by (rule F(3))
  show "\<And>v j. v < n \<Longrightarrow> j < n \<Longrightarrow> cells hw (?cl + (v * n + j)) = cells hc (vector (ts ! v) + j)"
    by (rule F(4))
  show "\<And>q. q < b \<or> b + n + n + n * n + n * n \<le> q \<Longrightarrow> cells hw q = cells hc q"
    by (rule F(5)) auto
qed

lemma length_diag_tuples [simp]: "length (diag_tuples er ei ev n h) = n"
  by (simp add: diag_tuples_def)

lemma mset_diag_ordered:
  assumes "sorts_by_valueReal sorter"
  shows "mset (diag_ordered sorter order ts) = mset ts"
  using assms by (simp add: diag_ordered_def sorts_by_valueReal_def)

lemma set_diag_ordered:
  assumes "sorts_by_valueReal sorter"
  shows "set (diag_ordered sorter order ts) = set ts"
  using mset_diag_ordered[OF assms] by (rule mset_eq_setD)

lemma length_diag_ordered:
  assumes "sorts_by_valueReal sorter"
  shows "length (diag_ordered sorter order ts) = length ts"
  using mset_diag_ordered[OF assms] by (rule mset_eq_length)

lemma diag_ordered_vector:
  assumes "v < n" and ss: "sorts_by_valueReal sorter"
  shows "\<exists>k<n. vector (diag_ordered sorter order (diag_tuples er ei ev n h) ! v) = data ev + k * nCols ev"
proof -
  let ?ts = "diag_tuples er ei ev n h"
  have "diag_ordered sorter order ?ts ! v \<in> set (diag_ordered sorter order ?ts)"
    using assms(1) by (intro nth_mem) (simp add: length_diag_ordered[OF ss])
  then have "diag_ordered sorter order ?ts ! v \<in> set ?ts" by (simp only: set_diag_ordered[OF ss])
  then show ?thesis by (auto simp: diag_tuples_def)
qed

lemma diagonalize_ok:
  fixes order :: SortOrder and h :: "'a::{zero,ord} heap"
  assumes sq: "nRows M = nCols M" and v: "data M + nRows M * nCols M \<le> brk h"
    and pos: "0 < nRows M" and bound: "nRows M * (nRows M * nRows M) \<le> 2147483647"
    and wb: "well_behaved solver M h" and info: "out_info (diag_result solver M h) = 0"
    and ss: "sorts_by_valueReal sorter"
  defines "n \<equiv> nRows M"
  defines "er \<equiv> \<lparr>nRows = n, nCols = 1, data = brk h\<rparr>"
    and "ei \<equiv> \<lparr>nRows = n, nCols = 1, data = brk h + n\<rparr>"
    and "ev \<equiv> \<lparr>nRows = n, nCols = n, data = brk h + n + n\<rparr>"
  defines "ts \<equiv> diag_ordered sorter order (diag_tuples er ei ev n (diag_stored solver M h))"
  shows "\<exists>h'. diagonalize solver sorter order M h = ok ((er, ei, ev), h') \<and>
           brk h' = brk h + n + n + n * n + n * n + nat (diag_lwork solver M h) \<and>
           (\<forall>k<n. elem h' er k 0 = valueReal (ts ! k) \<and>
                  elem h' ei k 0 = valueImag (ts ! k) \<and>
                  (\<forall>j<n. elem h' ev j k = cells (diag_stored solver M h) (vector (ts ! k) + j))) \<and>
           (\<forall>p<brk h. cells h' p = cells h p)"
proof -
  let ?b = "brk h"
  let ?cl = "?b + n + n + n * n"
  let ?hs = "diag_stored solver M h"
  let ?hw = "fold (diag_writeback ts er ei ?cl n) [0..<n] ?hs"
  let ?hcp = "copy ?cl (?cl + n * n) (?b + n + n) ?hw"
  have nb: "nRows M \<le> 2147483647"
  proof -
    have "1 \<le> nRows M * nRows M" using pos by simp
    then have "nRows M * 1 \<le> nRows M * (nRows M * nRows M)" by (rule mult_le_mono2)
    then have "nRows M \<le> nRows M * (nRows M * nRows M)" by (simp only: mult_1_right)
    then show ?thesis using bound by linarith
  qed
  have lw: "int_ok (diag_lwork solver M h)" "\<not> diag_lwork solver M h < 0"
    using wb by (simp_all add: well_behaved_def int_ok_def INT_MAX_def)
  have evT: "ev\<lparr>nCols := nRows ev, nRows := nCols ev\<rparr> = ev" by (simp add: ev_def)
  have tr: "transposeInPlace ev ?hcp = ok (ev, transposed ev ?hcp)"
    using transposeInPlace_ok[of ev ?hcp] pos bound evT by (simp add: ev_def n_def)
  have run: "diagonalize solver sorter order M h = ok ((er, ei, ev), transposed ev ?hcp)"
    unfolding diagonalize_unfold[OF sq v nb]
    apply (simp only: lw info if_False if_True not_False_eq_True refl n_def[symmetric] er_def[symmetric]
        ei_def[symmetric] ev_def[symmetric] ts_def[symmetric] not_not tr andThen_ok prod.case)
    apply simp
    done
  have len: "length ts = n" by (simp add: ts_def length_diag_ordered[OF ss])
  have vec: "\<exists>k<n. vector (ts ! v) = ?b + n + n + k * n" if "v < n" for v
    using diag_ordered_vector[OF that ss, of order er ei ev ?hs] by (simp add: ts_def ev_def)
  have wf: "brk ?hw = brk ?hs"
    "\<And>v. v < n \<Longrightarrow> cells ?hw (?b + v) = valueReal (ts ! v)"
    "\<And>v. v < n \<Longrightarrow> cells ?hw (?b + n + v) = valueImag (ts ! v)"
    "\<And>v j. v < n \<Longrightarrow> j < n \<Longrightarrow> cells ?hw (?cl + (v * n + j)) = cells ?hs (vector (ts ! v) + j)"
    "\<And>q. q < ?b \<or> ?cl + n * n \<le> q \<Longrightarrow> cells ?hw q = cells ?hs q"
    unfolding er_def ei_def
    by (rule diag_writeback_fold[OF len]; (rule vec)?; assumption)+
  note sc = diag_stored_cells[OF sq v wb, folded n_def]
  have cp: "cells ?hcp q = (if ?b + n + n \<le> q \<and> q < ?b + n + n + n * n
                            then cells ?hw (?cl + (q - (?b + n + n))) else cells ?hw q)" for q
  proof -
    have "cells ?hcp q = (if ?b + n + n \<le> q \<and> q < ?b + n + n + (?cl + n * n - ?cl)
                            then cells ?hw (?cl + (q - (?b + n + n))) else cells ?hw q)"
      by (rule cells_copy) simp
    then show ?thesis by simp
  qed
  have out: "cells (transposed ev ?hcp) q = cells ?hw q" if "q < ?b + n + n \<or> ?cl \<le> q" for q
    using that by (auto simp: transposed_def ev_def cp)
  show ?thesis
  proof (intro exI conjI allI impI)
    show "diagonalize solver sorter order M h = ok ((er, ei, ev), transposed ev ?hcp)" by (rule run)
    show "brk (transposed ev ?hcp) = ?b + n + n + n * n + n * n + nat (diag_lwork solver M h)"
      by (simp add: transposed_def wf(1) sc(1))
  next
    fix k assume k: "k < n"
    show "elem (transposed ev ?hcp) er k 0 = valueReal (ts ! k)"
      using k out[of "?b + k"] wf(2)[OF k] by (simp add: elem_def er_def)
    show "elem (transposed ev ?hcp) ei k 0 = valueImag (ts ! k)"
      using k out[of "?b + n + k"] wf(3)[OF k] by (simp add: elem_def ei_def)
  next
    fix k j assume k: "k < n" and j: "j < n"
    have kj: "k * n + j < n * n" using k j by (rule rc_less)
    have "elem (transposed ev ?hcp) (ev\<lparr>nCols := nRows ev, nRows := nCols ev\<rparr>) j k = elem ?hcp ev k j"
      by (rule elem_transposed) (use k j in \<open>simp_all add: ev_def\<close>)
    then have "elem (transposed ev ?hcp) ev j k = elem ?hcp ev k j" by (simp only: evT)
    also have "\<dots> = cells ?hcp (?b + n + n + (k * n + j))" by (simp add: elem_def ev_def add.assoc)
    also have "\<dots> = cells ?hw (?cl + (k * n + j))" using kj by (simp add: cp)
    also have "\<dots> = cells ?hs (vector (ts ! k) + j)" by (rule wf(4)[OF k j])
    finally show "elem (transposed ev ?hcp) ev j k = cells ?hs (vector (ts ! k) + j)" .
  next
    fix p assume p: "p < brk h"
    have "cells (transposed ev ?hcp) p = cells ?hw p" using p by (intro out) simp
    also have "\<dots> = cells ?hs p" using p by (intro wf(5)) simp
    also have "\<dots> = cells h p" by (rule sc(2)[OF p])
    finally show "cells (transposed ev ?hcp) p = cells h p" .
  qed
qed

lemma take_drop_nth:
  assumes "m + n \<le> length xs"
  shows "take n (drop m xs) = map (\<lambda>j. xs ! (m + j)) [0..<n]"
  using assms by (intro nth_equalityI) simp_all

lemma map_nth_upt: "length xs = n \<Longrightarrow> map (\<lambda>k. f (xs ! k)) [0..<n] = map f xs"
  by (intro nth_equalityI) simp_all

lemma weakly_ordered_diag_ordered:
  assumes ss: "sorts_by_valueReal sorter"
  shows "weakly_ordered order (map valueReal (diag_ordered sorter order ts))"
proof -
  from ss have s: "sorted_wrt (\<lambda>x y. \<not> valueReal y < valueReal x) (sorter ts)"
    by (simp add: sorts_by_valueReal_def)
  show ?thesis
  proof (cases "order = Descending")
    case True
    have "sorted_wrt (\<lambda>x y. \<not> valueReal x < valueReal y) (rev (sorter ts))"
      using s by (simp add: sorted_wrt_rev)
    then show ?thesis using True by (simp add: weakly_ordered_def diag_ordered_def sorted_wrt_map)
  next
    case False
    then show ?thesis using s by (simp add: weakly_ordered_def diag_ordered_def sorted_wrt_map)
  qed
qed

lemma sort_key_sorts_by_valueReal:
  "sorts_by_valueReal (sort_key (valueReal :: 'a::linorder eigenInfo \<Rightarrow> 'a))"
proof -
  have "sorted_wrt (\<lambda>x y. \<not> valueReal y < valueReal x) (sort_key valueReal xs)"
    for xs :: "'a eigenInfo list"
  proof -
    have "sorted (map valueReal (sort_key valueReal xs))" by (rule sorted_sort_key)
    then show ?thesis by (simp add: sorted_wrt_map not_less)
  qed
  then show ?thesis by (simp add: sorts_by_valueReal_def)
qed

lemma diagonalize_result:
  fixes order :: SortOrder and h :: "'a::{zero,ord} heap"
  assumes sq: "nRows M = nCols M" and v: "data M + nRows M * nCols M \<le> brk h"
    and pos: "0 < nRows M" and bound: "nRows M * (nRows M * nRows M) \<le> 2147483647"
    and wb: "well_behaved solver M h" and info: "out_info (diag_result solver M h) = 0"
    and ss: "sorts_by_valueReal sorter"
  defines "n \<equiv> nRows M"
  defines "er \<equiv> \<lparr>nRows = n, nCols = 1, data = brk h\<rparr>"
    and "ei \<equiv> \<lparr>nRows = n, nCols = 1, data = brk h + n\<rparr>"
    and "ev \<equiv> \<lparr>nRows = n, nCols = n, data = brk h + n + n\<rparr>"
  shows "\<exists>h' tr. diagonalize solver sorter order M h = ok ((er, ei, ev), h') \<and>
           brk h' = brk h + n + n + n * n + n * n + nat (diag_lwork solver M h) \<and>
           returned_triples ((er, ei, ev), h') = tr \<and> length tr = n \<and>
           mset tr = mset (eigen_triples (diag_result solver M h) n) \<and>
           weakly_ordered order (map fst tr) \<and>
           (\<forall>k<n. elem h' er k 0 = fst (tr ! k) \<and> elem h' ei k 0 = fst (snd (tr ! k)) \<and>
                  (\<forall>j<n. elem h' ev j k = snd (snd (tr ! k)) ! j)) \<and>
           (\<forall>p<brk h. cells h' p = cells h p)"
proof -
  define hs where "hs = diag_stored solver M h"
  define res where "res = diag_result solver M h"
  define tup where "tup = diag_tuples er ei ev n hs"
  define ts where "ts = diag_ordered sorter order tup"
  define g where "g e = (valueReal e, valueImag e, map (\<lambda>j. cells hs (vector e + j)) [0..<n])"
    for e :: "'a eigenInfo"
  from diagonalize_ok[OF sq v pos bound wb info ss, of order]
  obtain h' where run: "diagonalize solver sorter order M h = ok ((er, ei, ev), h')"
    and b: "brk h' = brk h + n + n + n * n + n * n + nat (diag_lwork solver M h)"
    and vals: "\<And>k. k < n \<Longrightarrow> elem h' er k 0 = valueReal (ts ! k)"
      "\<And>k. k < n \<Longrightarrow> elem h' ei k 0 = valueImag (ts ! k)"
      "\<And>k j. k < n \<Longrightarrow> j < n \<Longrightarrow> elem h' ev j k = cells hs (vector (ts ! k) + j)"
    and fr: "\<forall>p<brk h. cells h' p = cells h p"
    unfolding n_def er_def ei_def ev_def hs_def tup_def ts_def by blast
  note sc = diag_stored_cells[OF sq v wb, folded n_def hs_def res_def]
  from wb have lvl: "length (out_vl res) = n * n"
    by (simp add: well_behaved_def n_def res_def)
  have lts: "length ts = n" by (simp add: ts_def tup_def length_diag_ordered[OF ss])
  have dims: "nRows er = n" "nRows ev = n" by (simp_all add: er_def ev_def)
  have "returned_triples ((er, ei, ev), h') =
      map (\<lambda>k. (elem h' er k 0, elem h' ei k 0, map (\<lambda>j. elem h' ev j k) [0..<n])) [0..<n]"
    by (simp only: returned_triples_def prod.case dims)
  also have "\<dots> = map (\<lambda>k. g (ts ! k)) [0..<n]"
  proof (rule map_cong[OF refl])
    fix k assume "k \<in> set [0..<n]"
    then have k: "k < n" by simp
    have "map (\<lambda>j. elem h' ev j k) [0..<n] = map (\<lambda>j. cells hs (vector (ts ! k) + j)) [0..<n]"
      by (rule map_cong[OF refl]) (simp add: vals(3)[OF k])
    then show "(elem h' er k 0, elem h' ei k 0, map (\<lambda>j. elem h' ev j k) [0..<n]) = g (ts ! k)"
      by (simp only: g_def vals(1)[OF k] vals(2)[OF k])
  qed
  also have "\<dots> = map g ts" by (rule map_nth_upt[OF lts])
  finally have rt: "returned_triples ((er, ei, ev), h') = map g ts" .
  have et: "map g tup = eigen_triples res n"
  proof -
    have "g (tup ! k) = (out_wr res ! k, out_wi res ! k, take n (drop (k * n) (out_vl res)))"
      if k: "k < n" for k
    proof -
      have kn: "k * n + n \<le> n * n"
      proof -
        have "(k + 1) * n \<le> n * n" using k by (intro mult_le_mono1) simp
        then show ?thesis by (simp add: algebra_simps)
      qed
      have t: "tup ! k = \<lparr>valueReal = cells hs (brk h + k), valueImag = cells hs (brk h + n + k),
                        vector = brk h + n + n + k * n\<rparr>"
        using k by (simp add: tup_def diag_tuples_def er_def ei_def ev_def)
      have "map (\<lambda>j. cells hs (brk h + n + n + k * n + j)) [0..<n] =
            map (\<lambda>j. out_vl res ! (k * n + j)) [0..<n]"
      proof (rule map_cong[OF refl])
        fix j assume "j \<in> set [0..<n]"
        then have j: "j < n" by simp
        then have "k * n + j < n * n" using kn by simp
        from sc(5)[OF this] show "cells hs (brk h + n + n + k * n + j) = out_vl res ! (k * n + j)"
          by (simp add: add.assoc)
      qed
      also have "\<dots> = take n (drop (k * n) (out_vl res))"
        by (rule take_drop_nth[symmetric]) (use kn lvl in simp)
      finally show ?thesis using k by (simp add: t g_def sc(3,4))
    qed
    then show ?thesis
      by (intro nth_equalityI) (simp_all add: eigen_triples_def tup_def)
  qed
  have ms: "mset (map g ts) = mset (eigen_triples res n)"
  proof -
    have "mset (map g ts) = image_mset g (mset ts)" by simp
    also have "mset ts = mset tup" unfolding ts_def by (rule mset_diag_ordered[OF ss])
    also have "image_mset g (mset tup) = mset (map g tup)" by simp
    finally show ?thesis by (simp only: et)
  qed
  have fg: "map fst (map g ts) = map valueReal ts" by (simp add: g_def)
  have "weakly_ordered order (map valueReal ts)"
    unfolding ts_def by (rule weakly_ordered_diag_ordered[OF ss])
  then have wo: "weakly_ordered order (map fst (map g ts))" by (simp only: fg)
  have el: "map g ts ! k = (elem h' er k 0, elem h' ei k 0, map (\<lambda>j. elem h' ev j k) [0..<n])"
    if "k < n" for k
  proof -
    have "map g ts ! k = map (\<lambda>k. (elem h' er k 0, elem h' ei k 0, map (\<lambda>j. elem h' ev j k) [0..<n])) [0..<n] ! k"
      using rt by (simp only: returned_triples_def prod.case dims)
    then show ?thesis using that by simp
  qed
  show ?thesis
  proof (intro exI[of _ h'] exI[of _ "map g ts"] conjI allI impI)
    show "diagonalize solver sorter order M h = ok ((er, ei, ev), h')" by (rule run)
    show "brk h' = brk h + n + n + n * n + n * n + nat (diag_lwork solver M h)" by (rule b)
    show "returned_triples ((er, ei, ev), h') = map g ts" by (rule rt)
    show "length (map g ts) = n" by (simp add: lts)
    show "mset (map g ts) = mset (eigen_triples (diag_result solver M h) n)"
      using ms by (simp only: res_def)
    show "weakly_ordered order (map fst (map g ts))" by (rule wo)
  next
    fix k assume k: "k < n"
    show "elem h' er k 0 = fst (map g ts ! k)" by (simp add: el[OF k])
    show "elem h' ei k 0 = fst (snd (map g ts ! k))" by (simp add: el[OF k])
  next
    fix k j assume k: "k < n" and j: "j < n"
    show "elem h' ev j k = snd (snd (map g ts ! k)) ! j" using j by (simp add: el[OF k])
  next
    fix p assume "p < brk h"
    then show "cells h' p = cells h p" using fr by simp
  qed
qed

lemma diagonal_solver_well_behaved:
  assumes "4 * nRows M \<le> 2147483647"
  shows "well_behaved diagonal_solver M h"
proof -
  have "truncate_real (real (4 * nRows M)) = int (4 * nRows M)"
    unfolding truncate_real_def by (simp only: of_nat_0_le_iff if_True floor_of_nat)
  then show ?thesis
    using assms by (simp add: well_behaved_def diag_lwork_def diag_result_def diagonal_solver_def)
qed

lemma diagonal_solver_info [simp]: "out_info (diag_result diagonal_solver M h) = 0"
  by (simp add: diag_result_def diagonal_solver_def)

lemma upt_2: "[0..<2] = [0, 1]"
  by (simp add: upt_rec)

lemma upt_4: "[0..<4] = [0, 1, 2, 3]"
  by (simp add: upt_rec)

lemma diagonal_solver_2:
  "eigen_triples (diag_result diagonal_solver \<lparr>nRows = 2, nCols = 2, data = 0\<rparr> (heap_of [a, b, c, d])) 2 =
     [(a, 0, [1, 0]), (d, 0, [0, 1])]"
  by (simp add: eigen_triples_def diag_result_def diagonal_solver_def peek_def heap_of_def upt_2 upt_4)


lemma diagonalize_triples:
  fixes order :: SortOrder and h :: "'a::{zero,ord} heap"
  assumes sq: "nRows M = nCols M" and v: "data M + nRows M * nCols M \<le> brk h"
    and pos: "0 < nRows M" and bound: "nRows M * (nRows M * nRows M) \<le> 2147483647"
    and wb: "well_behaved solver M h" and info: "out_info (diag_result solver M h) = 0"
    and ss: "sorts_by_valueReal sorter"
  shows "\<exists>r. diagonalize solver sorter order M h = ok r \<and>
           mset (returned_triples r) = mset (eigen_triples (diag_result solver M h) (nRows M)) \<and>
           weakly_ordered order (map fst (returned_triples r))"
proof -
  from diagonalize_result[OF sq v pos bound wb info ss, of order]
  obtain h' tr where
    "diagonalize solver sorter order M h =
       ok ((\<lparr>nRows = nRows M, nCols = 1, data = brk h\<rparr>,
            \<lparr>nRows = nRows M, nCols = 1, data = brk h + nRows M\<rparr>,
            \<lparr>nRows = nRows M, nCols = nRows M, data = brk h + nRows M + nRows M\<rparr>), h')"
    "returned_triples ((\<lparr>nRows = nRows M, nCols = 1, data = brk h\<rparr>,
            \<lparr>nRows = nRows M, nCols = 1, data = brk h + nRows M\<rparr>,
            \<lparr>nRows = nRows M, nCols = nRows M, data = brk h + nRows M + nRows M\<rparr>), h') = tr"
    "mset tr = mset (eigen_triples (diag_result solver M h) (nRows M))"
    "weakly_ordered order (map fst tr)"
    by blast
  then show ?thesis by blast
qed

lemma list_of_two_ones:
  assumes "mset xs = mset [a, a]"
  shows "xs = [a, a]"
proof -
  have "length xs = length [a, a]" using assms by (rule mset_eq_length)
  then obtain x y where xs: "xs = [x, y]"
    by (cases xs; cases "tl xs") auto
  have "set xs = set [a, a]" using assms by (rule mset_eq_setD)
  then show ?thesis using xs by auto
qed

text \<open>
  Claim C4, as amended. For a matrix with at least one row whose buffer is allocated and
  whose dimension \<open>n\<close> satisfies \<open>n * n * n \<le> 2147483647\<close>, an eigensolver that is well
  behaved, and a sorting routine that rearranges its argument so that no entry is
  followed by one with a smaller real part: \<^verbatim>\<open>diagonalize\<close> fails exactly when the
  matrix is not square or the eigensolver reports an error, with the respective message.
  Otherwise it returns, and the returned triples (eigenvalue real part, imaginary part,
  and the matching column of the eigenvector matrix) are the eigensolver's triples,
  each as often as the eigensolver gave it, in an order in which the real parts are
  monotone in the requested direction; equal real parts may follow one another, in
  either order.
\<close>

theorem diagonalize_sorted_triples:
  fixes order :: SortOrder and h :: "'a::{zero,ord} heap"
  assumes "valid h M" and "0 < nRows M" and "nRows M * (nRows M * nRows M) \<le> 2147483647"
    and "well_behaved solver M h" and "sorts_by_valueReal sorter"
  shows "(nRows M \<noteq> nCols M \<longrightarrow>
            diagonalize solver sorter order M h =
              fail (runtime_error ''Attempting to diagonalize a non-square matrix.'')) \<and>
         (nRows M = nCols M \<and> out_info (diag_result solver M h) \<noteq> 0 \<longrightarrow>
            diagonalize solver sorter order M h =
              fail (runtime_error ''Something went wrong during diagonalization!'')) \<and>
         (nRows M = nCols M \<and> out_info (diag_result solver M h) = 0 \<longrightarrow>
            (\<exists>r. diagonalize solver sorter order M h = ok r \<and>
                 mset (returned_triples r) =
                   mset (eigen_triples (diag_result solver M h) (nRows M)) \<and>
                 weakly_ordered order (map fst (returned_triples r))))"
proof (intro conjI impI)
  assume "nRows M \<noteq> nCols M"
  then show "diagonalize solver sorter order M h =
      fail (runtime_error ''Attempting to diagonalize a non-square matrix.'')"
    by (simp add: diagonalize_def)
next
  assume a: "nRows M = nCols M \<and> out_info (diag_result solver M h) \<noteq> 0"
  have v: "data M + nRows M * nCols M \<le> brk h" and nb: "nRows M \<le> 2147483647"
    using assms(1) by (simp_all add: valid_def)
  have lw: "int_ok (diag_lwork solver M h)" "\<not> diag_lwork solver M h < 0"
    using assms(4) by (simp_all add: well_behaved_def int_ok_def INT_MAX_def)
  show "diagonalize solver sorter order M h =
      fail (runtime_error ''Something went wrong during diagonalization!'')"
    using a unfolding diagonalize_unfold[OF conjunct1[OF a] v nb] by (simp only: lw) simp
next
  assume a: "nRows M = nCols M \<and> out_info (diag_result solver M h) = 0"
  have v: "data M + nRows M * nCols M \<le> brk h"
    using assms(1) by (simp add: valid_def)
  show "\<exists>r. diagonalize solver sorter order M h = ok r \<and>
      mset (returned_triples r) = mset (eigen_triples (diag_result solver M h) (nRows M)) \<and>
      weakly_ordered order (map fst (returned_triples r))"
    by (rule diagonalize_triples[OF conjunct1[OF a] v assms(2,3,4) conjunct2[OF a] assms(5)])
qed

theorem diagonalize_sorted_triples_witness:
  "\<exists>r. diagonalize diagonal_solver (sort_key valueReal) Ascending
          \<lparr>nRows = 2, nCols = 2, data = 0\<rparr> (heap_of [2, 0, 0, 1 :: real]) = ok r \<and>
       mset (returned_triples r) = mset [(2, 0, [1, 0]), (1, 0, [0, 1])] \<and>
       weakly_ordered Ascending (map fst (returned_triples r))"
proof -
  have v: "valid (heap_of [2, 0, 0, 1 :: real]) \<lparr>nRows = 2, nCols = 2, data = 0\<rparr>"
    by (simp add: valid_def heap_of_def)
  show ?thesis
    using diagonalize_sorted_triples[OF v, of diagonal_solver "sort_key valueReal" Ascending]
    by (simp add: diagonal_solver_well_behaved diagonal_solver_2 sort_key_sorts_by_valueReal)
qed

text \<open>
  The order is not strict: the identity matrix has the eigenvalue 1 twice, and both
  are returned.
\<close>

theorem diagonalize_repeated_eigenvalue:
  "map_option (strictly_ordered Ascending)
     (returned_eigenvalues
        (diagonalize diagonal_solver (sort_key valueReal) Ascending
           \<lparr>nRows = 2, nCols = 2, data = 0\<rparr> (heap_of [1, 0, 0, 1 :: real]))) =
   Some False"
proof -
  let ?M = "\<lparr>nRows = 2, nCols = 2, data = 0\<rparr>"
  let ?h = "heap_of [1, 0, 0, 1 :: real]"
  have "\<exists>r. diagonalize diagonal_solver (sort_key valueReal) Ascending ?M ?h = ok r \<and>
      mset (returned_triples r) = mset (eigen_triples (diag_result diagonal_solver ?M ?h) (nRows ?M)) \<and>
      weakly_ordered Ascending (map fst (returned_triples r))"
    by (rule diagonalize_triples)
      (simp_all add: heap_of_def diagonal_solver_well_behaved sort_key_sorts_by_valueReal)
  then obtain r where r: "diagonalize diagonal_solver (sort_key valueReal) Ascending ?M ?h = ok r"
    and m: "mset (returned_triples r) = mset [(1, 0, [1, 0]), (1, 0, [0, 1])]"
    by (auto simp: diagonal_solver_2)
  have "mset (map fst (returned_triples r)) = image_mset fst (mset (returned_triples r))" by simp
  also have "\<dots> = mset [1, 1]" unfolding m by simp
  finally have "map fst (returned_triples r) = [1, 1]" by (rule list_of_two_ones)
  then show ?thesis
    by (simp add: r returned_eigenvalues_def ok_def strictly_ordered_def)
qed

section \<open>The spectral inverse\<close>

lemma for_int_guard:
  assumes "bound \<le> 2147483648"
    and "\<And>i t. i < bound \<Longrightarrow> body i t = (if B i then fail e else ok t)"
  shows "for_int bound body s = (if list_ex B [0..<bound] then fail e else ok s)"
proof -
  have "k \<le> bound \<Longrightarrow>
      fold (\<lambda>i m. andThen m (\<lambda>t. if int_ok (int i) then body i t else fail IntRange)) [0..<k] (ok s)
        = (if list_ex B [0..<k] then fail e else ok s)" for k
  proof (induction k)
    case 0
    then show ?case by simp
  next
    case (Suc k)
    have "int_ok (int k)" using Suc.prems assms(1) by (simp add: int_ok_def INT_MAX_def)
    then show ?case using Suc assms(2)[of k] by (simp add: list_ex_iff)
  qed
  then show ?thesis by (simp add: for_int_def)
qed

lemma assertSymmetric_eq:
  assumes sq: "nRows M = nCols M" and nb: "nRows M \<le> 2147483647"
  shows "assertSymmetric M threshold h =
           (if symmetric_within threshold M h then ok ()
            else fail (runtime_error ''Unexpected non-symmetric matrix found.''))"
proof -
  let ?e = "runtime_error ''Unexpected non-symmetric matrix found.''"
  let ?bad = "\<lambda>rw cl. \<bar>cells h (data M + (rw * nCols M + cl)) -
                          cells h (data M + (cl * nCols M + rw))\<bar> > threshold"
  have inner: "for_int rw (\<lambda>cl _. if ?bad rw cl then fail ?e else ok ()) t =
      (if list_ex (?bad rw) [0..<rw] then fail ?e else ok t)" if "rw < nRows M" for rw and t :: unit
    by (rule for_int_guard) (use that nb in simp_all)
  have "for_int (nRows M) (\<lambda>rw. for_int rw (\<lambda>cl _. if ?bad rw cl then fail ?e else ok ())) () =
      (if list_ex (\<lambda>rw. list_ex (?bad rw) [0..<rw]) [0..<nRows M] then fail ?e else ok ())"
    by (rule for_int_guard) (use nb inner in simp_all)
  moreover have "symmetric_within threshold M h \<longleftrightarrow>
      \<not> list_ex (\<lambda>rw. list_ex (?bad rw) [0..<rw]) [0..<nRows M]"
    by (simp add: symmetric_within_def list_all_iff list_ex_iff elem_at)
  ultimately show ?thesis
    using sq by (simp add: assertSymmetric_def assertSquare_def)
qed

lemma scale_rows_eq:
  assumes "n \<le> 2147483647"
  shows "scale_rows evalsReal evecsT n nc h = ok (fold (scale_row evalsReal evecsT nc) [0..<n] h)"
  unfolding scale_rows_def
  by (rule for_int_pure) (use assms in \<open>simp_all add: scale_row_def Let_def\<close>)

lemma scale_rows_cells:
  fixes h :: "'a::times heap"
  assumes er: "data er + n \<le> data et \<or> data et + n * nc \<le> data er" and c1: "nCols er = 1"
  defines "hh \<equiv> fold (scale_row er et nc) [0..<n] h"
  shows "brk hh = brk h"
    and "\<And>rw j. rw < n \<Longrightarrow> j < nc \<Longrightarrow>
           cells hh (data et + (rw * nc + j)) = cells h (data et + (rw * nc + j)) * cells h (data er + rw)"
    and "\<And>q. q < data et \<or> data et + n * nc \<le> q \<Longrightarrow> cells hh q = cells h q"
proof -
  define P where "P m g \<longleftrightarrow> brk g = brk h \<and>
      (\<forall>rw<m. \<forall>j<nc. cells g (data et + (rw * nc + j)) =
                         cells h (data et + (rw * nc + j)) * cells h (data er + rw)) \<and>
      (\<forall>q. \<not> (data et \<le> q \<and> q < data et + m * nc) \<longrightarrow> cells g q = cells h q)"
    for m and g :: "'a heap"
  have "P n (fold (scale_row er et nc) [0..<n] h)"
  proof (rule fold_upt_inv)
    show "P 0 h" by (simp add: P_def)
  next
    fix m g assume m: "m < n" and p: "P m g"
    from p have I: "brk g = brk h"
      "\<And>rw j. rw < m \<Longrightarrow> j < nc \<Longrightarrow> cells g (data et + (rw * nc + j)) =
                         cells h (data et + (rw * nc + j)) * cells h (data er + rw)"
      "\<And>q. \<not> (data et \<le> q \<and> q < data et + m * nc) \<Longrightarrow> cells g q = cells h q"
      unfolding P_def by simp_all
    have mn: "m * nc + nc \<le> n * nc"
    proof -
      have "(m + 1) * nc \<le> n * nc" using m by (intro mult_le_mono1) simp
      then show ?thesis by (simp add: algebra_simps)
    qed
    have sm: "Suc m * nc = m * nc + nc" by simp
    have ev: "cells g (data er + m) = cells h (data er + m)"
    proof (rule I(3))
      show "\<not> (data et \<le> data er + m \<and> data er + m < data et + m * nc)"
        using er m mn by linarith
    qed
    have step: "cells (scale_row er et nc m g) q =
        (if data et + m * nc \<le> q \<and> q < data et + m * nc + nc
         then cells g q * cells h (data er + m) else cells g q)" for q
      by (simp add: scale_row_def cells_for_each c1 ev add.assoc)
    show "P (Suc m) (scale_row er et nc m g)"
      unfolding P_def
    proof (intro conjI allI impI)
      show "brk (scale_row er et nc m g) = brk h" using I(1) by (simp add: scale_row_def)
    next
      fix rw j assume rw: "rw < Suc m" and j: "j < nc"
      show "cells (scale_row er et nc m g) (data et + (rw * nc + j)) =
          cells h (data et + (rw * nc + j)) * cells h (data er + rw)"
      proof (cases "rw = m")
        case True
        have "cells g (data et + (m * nc + j)) = cells h (data et + (m * nc + j))"
          by (rule I(3)) simp
        then show ?thesis using True j by (simp add: step)
      next
        case False
        then have rm: "rw < m" using rw by simp
        then have "rw * nc + j < m * nc" using j by (rule rc_less)
        then show ?thesis using I(2)[OF rm j] by (simp add: step)
      qed
    next
      fix q assume q: "\<not> (data et \<le> q \<and> q < data et + Suc m * nc)"
      then have nq: "\<not> (data et + m * nc \<le> q \<and> q < data et + m * nc + nc)"
        unfolding sm by linarith
      have "cells (scale_row er et nc m g) q = cells g q" by (simp only: step nq if_False)
      also have "\<dots> = cells h q"
      proof (rule I(3))
        show "\<not> (data et \<le> q \<and> q < data et + m * nc)" using q unfolding sm by linarith
      qed
      finally show "cells (scale_row er et nc m g) q = cells h q" .
    qed
  qed
  then have F: "brk hh = brk h"
    "\<And>rw j. rw < n \<Longrightarrow> j < nc \<Longrightarrow>
           cells hh (data et + (rw * nc + j)) = cells h (data et + (rw * nc + j)) * cells h (data er + rw)"
    "\<And>q. \<not> (data et \<le> q \<and> q < data et + n * nc) \<Longrightarrow> cells hh q = cells h q"
    unfolding P_def hh_def by simp_all
  show "brk hh = brk h" by (rule F(1))
  show "\<And>rw j. rw < n \<Longrightarrow> j < nc \<Longrightarrow>
           cells hh (data et + (rw * nc + j)) = cells h (data et + (rw * nc + j)) * cells h (data er + rw)"
    by (rule F(2))
  show "\<And>q. q < data et \<or> data et + n * nc \<le> q \<Longrightarrow> cells hh q = cells h q"
    by (rule F(3)) linarith
qed

lemma sum_in_order_cong:
  "(\<And>k. k < n \<Longrightarrow> f k = g k) \<Longrightarrow> sum_in_order f n = sum_in_order g n"
  unfolding sum_in_order_def by (rule accumulate_cong)

lemma complex_found_mset:
  assumes "mset tr = mset tr'"
  shows "complex_found threshold tr = complex_found threshold tr'"
proof -
  have "set tr = set tr'" using assms by (rule mset_eq_setD)
  then show ?thesis by (simp add: complex_found_def list_ex_iff)
qed

lemma dim_from_cube:
  fixes n :: nat
  assumes "0 < n" and "n * (n * n) \<le> 2147483647"
  shows "n \<le> 2147483647"
proof -
  have "1 \<le> n * n" using assms(1) by simp
  then have "n * 1 \<le> n * (n * n)" by (rule mult_le_mono2)
  then have "n \<le> n * (n * n)" by (simp only: mult_1_right)
  then show ?thesis using assms(2) by (rule le_trans)
qed

lemma applyOperation_fails:
  fixes h :: "'a::{zero,plus,minus,times,abs,ord} heap"
  assumes sq: "nRows M = nCols M" and v: "data M + nRows M * nCols M \<le> brk h"
    and pos: "0 < nRows M" and bound: "nRows M * (nRows M * nRows M) \<le> 2147483647"
    and wb: "well_behaved solver M h" and ss: "sorts_by_valueReal sorter"
  shows "\<not> symmetric_within threshold M h \<Longrightarrow>
           applyOperation solver sorter threshold fn M h =
             fail (runtime_error ''Unexpected non-symmetric matrix found.'')"
    and "symmetric_within threshold M h \<Longrightarrow> out_info (diag_result solver M h) \<noteq> 0 \<Longrightarrow>
           applyOperation solver sorter threshold fn M h =
             fail (runtime_error ''Something went wrong during diagonalization!'')"
    and "symmetric_within threshold M h \<Longrightarrow> out_info (diag_result solver M h) = 0 \<Longrightarrow>
           complex_found threshold (eigen_triples (diag_result solver M h) (nRows M)) \<Longrightarrow>
           applyOperation solver sorter threshold fn M h =
             fail (runtime_error
               ''Unexpected complex eigenvalues encountered when applying operator to Matrix.'')"
proof -
  have nb: "nRows M \<le> 2147483647" using pos bound by (rule dim_from_cube)
  note as = assertSymmetric_eq[OF sq nb]
  show "applyOperation solver sorter threshold fn M h =
      fail (runtime_error ''Unexpected non-symmetric matrix found.'')"
    if "\<not> symmetric_within threshold M h"
    using that by (simp add: applyOperation_def as)
  have lw: "int_ok (diag_lwork solver M h)" "\<not> diag_lwork solver M h < 0"
    using wb by (simp_all add: well_behaved_def int_ok_def INT_MAX_def)
  show "applyOperation solver sorter threshold fn M h =
             fail (runtime_error ''Something went wrong during diagonalization!'')"
    if "symmetric_within threshold M h" "out_info (diag_result solver M h) \<noteq> 0"
  proof -
    have "diagonalize solver sorter Ascending M h =
        fail (runtime_error ''Something went wrong during diagonalization!'')"
      using that(2) unfolding diagonalize_unfold[OF sq v nb] by (simp only: lw) simp
    then show ?thesis using that(1) by (simp add: applyOperation_def as)
  qed
  show "applyOperation solver sorter threshold fn M h =
             fail (runtime_error
               ''Unexpected complex eigenvalues encountered when applying operator to Matrix.'')"
    if s: "symmetric_within threshold M h" and info: "out_info (diag_result solver M h) = 0"
      and cf: "complex_found threshold (eigen_triples (diag_result solver M h) (nRows M))"
  proof -
    let ?n = "nRows M"
    let ?er = "\<lparr>nRows = ?n, nCols = 1, data = brk h\<rparr>"
    let ?ei = "\<lparr>nRows = ?n, nCols = 1, data = brk h + ?n\<rparr>"
    let ?ev = "\<lparr>nRows = ?n, nCols = ?n, data = brk h + ?n + ?n\<rparr>"
    from diagonalize_result[OF sq v pos bound wb info ss, of Ascending]
    obtain h' tr where run: "diagonalize solver sorter Ascending M h = ok ((?er, ?ei, ?ev), h')"
      and ltr: "length tr = ?n"
      and ms: "mset tr = mset (eigen_triples (diag_result solver M h) ?n)"
      and im: "\<And>k. k < ?n \<Longrightarrow> elem h' ?ei k 0 = fst (snd (tr ! k))"
      by blast
    from cf have "complex_found threshold tr" by (simp add: complex_found_mset[OF ms])
    then obtain k where k: "k < ?n" "\<bar>fst (snd (tr ! k))\<bar> > threshold"
      unfolding complex_found_def list_ex_iff using ltr by (auto simp: in_set_conv_nth)
    have "cells h' (brk h + ?n + k) = fst (snd (tr ! k))"
      using im[OF k(1)] by (simp add: elem_def)
    then have "\<not> isNearZero ?ei threshold h'"
      using k by (auto simp: isNearZero_def list_ex_iff cbegin_def cend_def intro!: bexI[of _ k])
    then show ?thesis using s by (simp add: applyOperation_def as run)
  qed
qed

lemma applyOperation_ok:
  fixes h :: "'a::{zero,plus,minus,times,abs,ord} heap"
  assumes sq: "nRows M = nCols M" and v: "data M + nRows M * nCols M \<le> brk h"
    and pos: "0 < nRows M" and bound: "nRows M * (nRows M * nRows M) \<le> 2147483647"
    and wb: "well_behaved solver M h" and info: "out_info (diag_result solver M h) = 0"
    and ss: "sorts_by_valueReal sorter"
    and sym: "symmetric_within threshold M h"
    and re: "\<not> complex_found threshold (eigen_triples (diag_result solver M h) (nRows M))"
  shows "\<exists>P h' tr. applyOperation solver sorter threshold fn M h = ok (P, h') \<and>
           nRows P = nRows M \<and> nCols P = nRows M \<and> brk h \<le> data P \<and>
           mset tr = mset (eigen_triples (diag_result solver M h) (nRows M)) \<and>
           weakly_ordered Ascending (map fst tr) \<and>
           (\<forall>r<nRows M. \<forall>c<nRows M. elem h' P r c = recomposed fn tr r c) \<and>
           (\<forall>p<brk h. cells h' p = cells h p)"
proof -
  define n where "n = nRows M"
  define b where "b = brk h"
  define er where "er = \<lparr>nRows = n, nCols = 1, data = b\<rparr>"
  define ei where "ei = \<lparr>nRows = n, nCols = 1, data = b + n\<rparr>"
  define ev where "ev = \<lparr>nRows = n, nCols = n, data = b + n + n\<rparr>"
  have nb: "n \<le> 2147483647" unfolding n_def using pos bound by (rule dim_from_cube)
  from diagonalize_result[OF sq v pos bound wb info ss, of Ascending]
  obtain h1 tr where run: "diagonalize solver sorter Ascending M h = ok ((er, ei, ev), h1)"
    and b1: "brk h1 = b + n + n + n * n + n * n + nat (diag_lwork solver M h)"
    and ltr: "length tr = n"
    and ms: "mset tr = mset (eigen_triples (diag_result solver M h) n)"
    and wo: "weakly_ordered Ascending (map fst tr)"
    and re1: "\<And>k. k < n \<Longrightarrow> elem h1 er k 0 = fst (tr ! k)"
    and im1: "\<And>k. k < n \<Longrightarrow> elem h1 ei k 0 = fst (snd (tr ! k))"
    and ve1: "\<And>k j. k < n \<Longrightarrow> j < n \<Longrightarrow> elem h1 ev j k = snd (snd (tr ! k)) ! j"
    and fr1: "\<And>p. p < b \<Longrightarrow> cells h1 p = cells h p"
    unfolding n_def er_def ei_def ev_def b_def by blast
  have re': "\<not> complex_found threshold tr"
    using re unfolding n_def[symmetric] by (simp add: complex_found_mset[OF ms])
  have as: "assertSymmetric M threshold h = ok ()"
    using assertSymmetric_eq[OF sq, of threshold h] nb sym by (simp add: n_def)
  have nz: "isNearZero ei threshold h1"
  proof -
    have "\<not> \<bar>cells h1 (b + n + i)\<bar> > threshold" if i: "i < n" for i
    proof -
      have "cells h1 (b + n + i) = fst (snd (tr ! i))" using im1[OF i] by (simp add: elem_def ei_def)
      moreover have "tr ! i \<in> set tr" using i ltr by simp
      ultimately show ?thesis using re' by (auto simp: complex_found_def list_ex_iff)
    qed
    then show ?thesis by (simp add: isNearZero_def list_ex_iff cbegin_def cend_def ei_def)
  qed
  define h2 where "h2 = applyOperationToEachElement fn er h1"
  have c2: "cells h2 q = (if b \<le> q \<and> q < b + n then fn (cells h1 q) else cells h1 q)" for q
    by (simp add: h2_def applyOperationToEachElement_def cells_for_each cbegin_def cend_def er_def)
  have b2: "brk h2 = brk h1" by (simp add: h2_def applyOperationToEachElement_def)
  define et where "et = \<lparr>nRows = n, nCols = n, data = brk h1\<rparr>"
  have "\<exists>h'. transpose_matrix ev h2 = ok (\<lparr>nRows = nCols ev, nCols = nRows ev, data = brk h2\<rparr>, h') \<and>
           brk h' = brk h2 + nRows ev * nCols ev \<and>
           (\<forall>r<nRows ev. \<forall>c<nCols ev.
              elem h' \<lparr>nRows = nCols ev, nCols = nRows ev, data = brk h2\<rparr> c r = elem h2 ev r c) \<and>
           (\<forall>p<brk h2. cells h' p = cells h2 p)"
    by (rule transpose_matrix_ok) (use pos bound in \<open>simp_all add: ev_def b2 b1 n_def\<close>)
  then obtain h3 where tm: "transpose_matrix ev h2 = ok (et, h3)"
    and b3: "brk h3 = brk h1 + n * n"
    and t3: "\<And>r c. r < n \<Longrightarrow> c < n \<Longrightarrow> elem h3 et c r = elem h2 ev r c"
    and fr3: "\<And>p. p < brk h1 \<Longrightarrow> cells h3 p = cells h2 p"
    unfolding et_def b2 by (auto simp: ev_def)
  define h4 where "h4 = fold (scale_row er et n) [0..<n] h3"
  have sr: "scale_rows er et (nRows M) (nCols M) h3 = ok h4"
    using scale_rows_eq[OF nb, of er et n h3] sq by (simp add: h4_def n_def)
  have sep: "data er + n \<le> data et \<or> data et + n * n \<le> data er"
    by (simp add: er_def et_def b1)
  have c1: "nCols er = 1" by (simp add: er_def)
  note s4 = scale_rows_cells[OF sep c1, where h = h3, folded h4_def]
  have b4: "brk h4 = brk h1 + n * n" using s4(1) b3 by simp
  have "\<exists>h'. multiply ev et h4 = ok (\<lparr>nRows = nRows ev, nCols = nCols et, data = brk h4\<rparr>, h') \<and>
           brk h' = brk h4 + nRows ev * nCols et \<and>
           (\<forall>r<nRows ev. \<forall>c<nCols et.
              elem h' \<lparr>nRows = nRows ev, nCols = nCols et, data = brk h4\<rparr> r c =
                sum_in_order (\<lambda>k. elem h4 ev r k * elem h4 et k c) (nCols ev)) \<and>
           (\<forall>p<brk h4. cells h' p = cells h4 p)"
    by (rule multiply_elements) (use nb in \<open>simp_all add: valid_def ev_def et_def b4 b1\<close>)
  then obtain h5 where mu: "multiply ev et h4 = ok (\<lparr>nRows = n, nCols = n, data = brk h4\<rparr>, h5)"
    and p5: "\<And>r c. r < n \<Longrightarrow> c < n \<Longrightarrow>
        elem h5 \<lparr>nRows = n, nCols = n, data = brk h4\<rparr> r c =
          sum_in_order (\<lambda>k. elem h4 ev r k * elem h4 et k c) n"
    and fr5: "\<And>p. p < brk h4 \<Longrightarrow> cells h5 p = cells h4 p"
    by (auto simp: ev_def et_def)
  have low: "cells h4 q = cells h2 q" if "q < brk h1" for q
  proof -
    have "cells h4 q = cells h3 q" using that by (intro s4(3)) (simp add: et_def)
    then show ?thesis using fr3[OF that] by simp
  qed
  have e4v: "elem h4 ev r k = snd (snd (tr ! k)) ! r" if r: "r < n" and k: "k < n" for r k
  proof -
    have rk: "r * n + k < n * n" using r k by (rule rc_less)
    have "elem h4 ev r k = cells h4 (b + n + n + (r * n + k))" by (simp add: elem_at ev_def)
    also have "\<dots> = cells h2 (b + n + n + (r * n + k))" using rk by (intro low) (simp add: b1)
    also have "\<dots> = cells h1 (b + n + n + (r * n + k))" by (simp add: c2)
    also have "\<dots> = elem h1 ev r k" by (simp add: elem_at ev_def)
    finally show ?thesis using ve1[OF k r] by simp
  qed
  have e4t: "elem h4 et k c = snd (snd (tr ! k)) ! c * fn (fst (tr ! k))"
    if k: "k < n" and c: "c < n" for k c
  proof -
    have kc: "k * n + c < n * n" using k c by (rule rc_less)
    have "elem h4 et k c = cells h4 (data et + (k * n + c))" by (simp add: elem_at et_def)
    also have "\<dots> = cells h3 (data et + (k * n + c)) * cells h3 (data er + k)"
      by (rule s4(2)[OF k c])
    also have "cells h3 (data et + (k * n + c)) = elem h3 et k c" by (simp add: elem_at et_def)
    also have "\<dots> = elem h2 ev c k" by (rule t3[OF c k])
    also have "\<dots> = cells h2 (b + n + n + (c * n + k))" by (simp add: elem_at ev_def)
    also have "\<dots> = cells h1 (b + n + n + (c * n + k))" by (simp add: c2)
    also have "\<dots> = elem h1 ev c k" by (simp add: elem_at ev_def)
    also have "\<dots> = snd (snd (tr ! k)) ! c" by (rule ve1[OF k c])
    also have "cells h3 (data er + k) = fn (fst (tr ! k))"
    proof -
      have "cells h3 (data er + k) = cells h2 (b + k)" using k by (subst fr3) (simp_all add: er_def b1)
      also have "\<dots> = fn (cells h1 (b + k))" using k by (simp add: c2)
      also have "cells h1 (b + k) = elem h1 er k 0" by (simp add: elem_at er_def)
      finally show ?thesis using re1[OF k] by simp
    qed
    finally show ?thesis .
  qed
  have res: "applyOperation solver sorter threshold fn M h =
      ok (\<lparr>nRows = n, nCols = n, data = brk h4\<rparr>, h5)"
    using nz by (simp add: applyOperation_def as run h2_def[symmetric] tm sr mu)
  show ?thesis
  proof (intro exI[of _ "\<lparr>nRows = n, nCols = n, data = brk h4\<rparr>"] exI[of _ h5] exI[of _ tr]
      conjI allI impI)
    show "applyOperation solver sorter threshold fn M h =
        ok (\<lparr>nRows = n, nCols = n, data = brk h4\<rparr>, h5)" by (rule res)
    show "nRows \<lparr>nRows = n, nCols = n, data = brk h4\<rparr> = nRows M" by (simp add: n_def)
    show "nCols \<lparr>nRows = n, nCols = n, data = brk h4\<rparr> = nRows M" by (simp add: n_def)
    show "brk h \<le> data \<lparr>nRows = n, nCols = n, data = brk h4\<rparr>" by (simp add: b4 b1 b_def)
    show "mset tr = mset (eigen_triples (diag_result solver M h) (nRows M))"
      using ms by (simp only: n_def)
    show "weakly_ordered Ascending (map fst tr)" by (rule wo)
  next
    fix r c assume "r < nRows M" "c < nRows M"
    then have r: "r < n" and c: "c < n" by (simp_all add: n_def)
    have "elem h5 \<lparr>nRows = n, nCols = n, data = brk h4\<rparr> r c =
        sum_in_order (\<lambda>k. elem h4 ev r k * elem h4 et k c) n"
      by (rule p5[OF r c])
    also have "\<dots> = sum_in_order
        (\<lambda>k. (snd (snd (tr ! k)) ! r) * ((snd (snd (tr ! k)) ! c) * fn (fst (tr ! k)))) n"
      by (rule sum_in_order_cong) (simp only: e4v[OF r] e4t[OF _ c])
    finally show "elem h5 \<lparr>nRows = n, nCols = n, data = brk h4\<rparr> r c = recomposed fn tr r c"
      by (simp only: recomposed_def ltr)
  next
    fix p assume p: "p < brk h"
    then have p1: "p < brk h1" by (simp add: b1 b_def)
    have "cells h5 p = cells h4 p" using p1 by (intro fr5) (simp add: b4)
    also have "\<dots> = cells h2 p" by (rule low[OF p1])
    also have "\<dots> = cells h1 p" using p by (simp add: c2 b_def)
    also have "\<dots> = cells h p" using p by (intro fr1) (simp add: b_def)
    finally show "cells h5 p = cells h p" .
  qed
qed

lemma returned_ok [simp]: "returned (ok x)"
  by (simp add: returned_def ok_def)

lemma peek_allocate:
  assumes "p + n \<le> brk h"
  shows "peek p n (snd (allocate k h)) = peek p n h"
  by (rule peek_cong) (use assms in \<open>simp add: cells_allocate\<close>)

lemma diag_result_allocate:
  assumes "data M + nRows M * nRows M \<le> brk h"
  shows "diag_lwork solver M (snd (allocate k h)) = diag_lwork solver M h"
    and "diag_result solver M (snd (allocate k h)) = diag_result solver M h"
    and "well_behaved solver M (snd (allocate k h)) = well_behaved solver M h"
proof -
  show l: "diag_lwork solver M (snd (allocate k h)) = diag_lwork solver M h"
    by (simp add: diag_lwork_def peek_allocate[OF assms])
  show r: "diag_result solver M (snd (allocate k h)) = diag_result solver M h"
    by (simp add: diag_result_def l peek_allocate[OF assms])
  show "well_behaved solver M (snd (allocate k h)) = well_behaved solver M h"
    by (simp add: well_behaved_def l r)
qed

lemma symmetric_within_allocate:
  assumes sq: "nRows M = nCols M" and v: "data M + nRows M * nCols M \<le> brk h"
  shows "symmetric_within t M (snd (allocate k h)) = symmetric_within t M h"
proof -
  have "elem (snd (allocate k h)) M r c = elem h M r c" if "r < nRows M" "c < nCols M" for r c
  proof -
    have "r * nCols M + c < nRows M * nCols M" using that by (rule rc_less)
    then show ?thesis using v by (simp add: elem_at cells_allocate)
  qed
  then show ?thesis using sq by (simp add: symmetric_within_def list_all_iff)
qed


lemma sorted_pair:
  assumes "mset tr = mset [a, b]" and "weakly_ordered Ascending (map fst tr)" and "fst b < fst a"
  shows "tr = [b, a]"
proof -
  have "length tr = length [a, b]" using assms(1) by (rule mset_eq_length)
  then obtain x y where xy: "tr = [x, y]"
    by (cases tr; cases "tl tr") auto
  from assms(1) have "(x = a \<and> y = b) \<or> (x = b \<and> y = a)"
    unfolding xy by (auto simp: add_eq_conv_ex)
  moreover have "\<not> fst y < fst x" using assms(2) by (simp add: xy weakly_ordered_def)
  ultimately show ?thesis using assms(3) xy by auto
qed

lemma inverse_matrix_general:
  fixes h :: "'a::{zero,one,plus,minus,times,inverse,abs,ord} heap"
  assumes "nRows M = nCols M" and "nRows M \<noteq> 3" and "nRows M \<le> 2147483647"
  shows "inverse_matrix solver sorter threshold M h =
           applyOperation solver sorter threshold (\<lambda>x. 1 / x) M
             (snd (allocate (nRows M * nRows M) h))"
  using assms(1)[symmetric] assms(2)
  by (simp add: inverse_matrix_def assertSquare_def Matrix_ctor_small[OF assms(3) assms(3)])

text \<open>
  Claim C3, as amended. For a square matrix that is not 3 by 3, with at least one row,
  an allocated buffer and a dimension \<open>n\<close> with \<open>n * n * n \<le> 2147483647\<close>, a well-behaved
  eigensolver and a sorting routine that rearranges its argument so that no entry is
  followed by one with a smaller real part: \<^verbatim>\<open>inverse\<close> requires the matrix to be
  symmetric within the threshold and fails otherwise; it diagonalizes the matrix and
  fails when the eigensolver reports an error or when an eigenvalue has an imaginary
  part above the threshold; otherwise it returns, whatever the magnitudes of the
  eigenvalues, the matrix \<open>V * diag (1 / lambda) * V\<^sup>T\<close>, where the eigenpairs are taken in
  an ascending order of the eigenvalues, \<open>1 / lambda\<close> is the quotient of the element type,
  and each element is the sum, in that order, of the products
  \<open>V(r, k) * (V(c, k) * (1 / lambda\<^sub>k))\<close>. There is no guard threshold on the eigenvalues.
\<close>

theorem inverse_spectral:
  fixes h :: "'a::{zero,one,plus,minus,times,inverse,abs,ord} heap"
  assumes "valid h M" and "nRows M = nCols M" and "nRows M \<noteq> 3" and "0 < nRows M"
    and "nRows M * (nRows M * nRows M) \<le> 2147483647" and "well_behaved solver M h"
    and "sorts_by_valueReal sorter"
  shows "(\<not> symmetric_within threshold M h \<longrightarrow>
            inverse_matrix solver sorter threshold M h =
              fail (runtime_error ''Unexpected non-symmetric matrix found.'')) \<and>
         (symmetric_within threshold M h \<and> out_info (diag_result solver M h) \<noteq> 0 \<longrightarrow>
            inverse_matrix solver sorter threshold M h =
              fail (runtime_error ''Something went wrong during diagonalization!'')) \<and>
         (symmetric_within threshold M h \<and> out_info (diag_result solver M h) = 0 \<and>
          complex_found threshold (eigen_triples (diag_result solver M h) (nRows M)) \<longrightarrow>
            inverse_matrix solver sorter threshold M h =
              fail (runtime_error
                ''Unexpected complex eigenvalues encountered when applying operator to Matrix.'')) \<and>
         (symmetric_within threshold M h \<and> out_info (diag_result solver M h) = 0 \<and>
          \<not> complex_found threshold (eigen_triples (diag_result solver M h) (nRows M)) \<longrightarrow>
            (\<exists>P h' tr. inverse_matrix solver sorter threshold M h = ok (P, h') \<and>
                nRows P = nRows M \<and> nCols P = nRows M \<and>
                mset tr = mset (eigen_triples (diag_result solver M h) (nRows M)) \<and>
                weakly_ordered Ascending (map fst tr) \<and>
                (\<forall>r<nRows M. \<forall>c<nRows M. elem h' P r c = recomposed (\<lambda>x. 1 / x) tr r c)))"
proof -
  let ?ha = "snd (allocate (nRows M * nRows M) h)"
  let ?fn = "\<lambda>x :: 'a. 1 / x"
  have nb: "nRows M \<le> 2147483647" using assms(4,5) by (rule dim_from_cube)
  have v: "data M + nRows M * nCols M \<le> brk h" using assms(1) by (simp add: valid_def)
  then have v': "data M + nRows M * nRows M \<le> brk h" using assms(2) by simp
  have va: "data M + nRows M * nCols M \<le> brk ?ha" using v by simp
  have inv: "inverse_matrix solver sorter threshold M h =
      applyOperation solver sorter threshold ?fn M ?ha"
    using assms(2,3) nb by (rule inverse_matrix_general)
  note tf = diag_result_allocate[OF v', of solver "nRows M * nRows M"]
    symmetric_within_allocate[OF assms(2) v, of threshold "nRows M * nRows M"]
  have wb: "well_behaved solver M ?ha" using assms(6) by (simp only: tf)
  note fl = applyOperation_fails[OF assms(2) va assms(4,5) wb assms(7), of threshold ?fn,
      unfolded tf]
  show ?thesis
  proof (intro conjI impI)
    assume "\<not> symmetric_within threshold M h"
    then show "inverse_matrix solver sorter threshold M h =
        fail (runtime_error ''Unexpected non-symmetric matrix found.'')"
      unfolding inv by (rule fl(1))
  next
    assume "symmetric_within threshold M h \<and> out_info (diag_result solver M h) \<noteq> 0"
    then show "inverse_matrix solver sorter threshold M h =
              fail (runtime_error ''Something went wrong during diagonalization!'')"
      unfolding inv by (intro fl(2)) simp_all
  next
    assume "symmetric_within threshold M h \<and> out_info (diag_result solver M h) = 0 \<and>
          complex_found threshold (eigen_triples (diag_result solver M h) (nRows M))"
    then show "inverse_matrix solver sorter threshold M h =
              fail (runtime_error
                ''Unexpected complex eigenvalues encountered when applying operator to Matrix.'')"
      unfolding inv by (intro fl(3)) simp_all
  next
    assume a: "symmetric_within threshold M h \<and> out_info (diag_result solver M h) = 0 \<and>
          \<not> complex_found threshold (eigen_triples (diag_result solver M h) (nRows M))"
    have "\<exists>P h' tr. applyOperation solver sorter threshold ?fn M ?ha = ok (P, h') \<and>
           nRows P = nRows M \<and> nCols P = nRows M \<and> brk ?ha \<le> data P \<and>
           mset tr = mset (eigen_triples (diag_result solver M ?ha) (nRows M)) \<and>
           weakly_ordered Ascending (map fst tr) \<and>
           (\<forall>r<nRows M. \<forall>c<nRows M. elem h' P r c = recomposed ?fn tr r c) \<and>
           (\<forall>p<brk ?ha. cells h' p = cells ?ha p)"
      by (rule applyOperation_ok[OF assms(2) va assms(4,5) wb _ assms(7)])
        (use a in \<open>simp_all add: tf\<close>)
    then show "\<exists>P h' tr. inverse_matrix solver sorter threshold M h = ok (P, h') \<and>
                nRows P = nRows M \<and> nCols P = nRows M \<and>
                mset tr = mset (eigen_triples (diag_result solver M h) (nRows M)) \<and>
                weakly_ordered Ascending (map fst tr) \<and>
                (\<forall>r<nRows M. \<forall>c<nRows M. elem h' P r c = recomposed ?fn tr r c)"
      unfolding inv tf by blast
  qed
qed

theorem inverse_spectral_witness:
  "\<exists>P h'. inverse_matrix diagonal_solver (sort_key valueReal) default_threshold
             \<lparr>nRows = 2, nCols = 2, data = 0\<rparr> (heap_of [4, 0, 0, 2 :: real]) = ok (P, h') \<and>
       elem h' P 0 0 = 1 / 4 \<and> elem h' P 0 1 = 0 \<and> elem h' P 1 0 = 0 \<and> elem h' P 1 1 = 1 / 2"
proof -
  let ?M = "\<lparr>nRows = 2, nCols = 2, data = 0\<rparr>"
  let ?h = "heap_of [4, 0, 0, 2 :: real]"
  let ?tr = "[(2, 0, [0, 1]), (4, 0, [1, 0 :: real])] :: (real \<times> real \<times> real list) list"
  have v: "valid ?h ?M" by (simp add: valid_def heap_of_def)
  have s: "symmetric_within default_threshold ?M ?h"
    by (simp add: symmetric_within_def heap_of_def elem_def upt_2 default_threshold_def)
  have c: "\<not> complex_found default_threshold (eigen_triples (diag_result diagonal_solver ?M ?h) 2)"
    by (simp add: diagonal_solver_2 complex_found_def default_threshold_def)
  have r: "recomposed (\<lambda>x. 1 / x) ?tr 0 0 = 1 / 4" "recomposed (\<lambda>x. 1 / x) ?tr 0 1 = 0"
    "recomposed (\<lambda>x. 1 / x) ?tr 1 0 = 0" "recomposed (\<lambda>x. 1 / x) ?tr 1 1 = 1 / 2"
    by (simp_all add: recomposed_def sum_in_order_def accumulate_def)
  from inverse_spectral[OF v, of diagonal_solver "sort_key valueReal" default_threshold]
  have "\<exists>P h' tr. inverse_matrix diagonal_solver (sort_key valueReal) default_threshold ?M ?h =
        ok (P, h') \<and> nRows P = 2 \<and> nCols P = 2 \<and>
      mset tr = mset [(4, 0, [1, 0]), (2, 0, [0, 1 :: real])] \<and>
      weakly_ordered Ascending (map fst tr) \<and>
      (\<forall>r<2. \<forall>c<2. elem h' P r c = recomposed (\<lambda>x. 1 / x) tr r c)"
    using s c by (simp add: diagonal_solver_well_behaved diagonal_solver_2 sort_key_sorts_by_valueReal)
  then obtain P h' tr where
    run: "inverse_matrix diagonal_solver (sort_key valueReal) default_threshold ?M ?h = ok (P, h')"
    and ms: "mset tr = mset [(4, 0, [1, 0]), (2, 0, [0, 1 :: real])]"
    and wo: "weakly_ordered Ascending (map fst tr)"
    and el: "\<And>r c. r < 2 \<Longrightarrow> c < 2 \<Longrightarrow> elem h' P r c = recomposed (\<lambda>x. 1 / x) tr r c"
    by blast
  have tr: "tr = ?tr" using ms wo by (rule sorted_pair) simp
  have "elem h' P 0 0 = 1 / 4" using el[of 0 0] r(1) by (simp add: tr)
  moreover have "elem h' P 0 1 = 0" using el[of 0 1] r(2) by (simp add: tr)
  moreover have "elem h' P 1 0 = 0" using el[of 1 0] r(3) by (simp add: tr)
  moreover have "elem h' P 1 1 = 1 / 2" using el[of 1 1] r(4) by (simp add: tr)
  ultimately show ?thesis using run by blast
qed

text \<open>
  The symmetric singular matrix with rows \<open>(0, 0)\<close> and \<open>(0, 1)\<close> has the eigenvalue 0;
  \<^verbatim>\<open>inverse\<close> takes its reciprocal and returns.
\<close>

theorem inverse_singular_returns:
  "returned (inverse_matrix diagonal_solver (sort_key valueReal) default_threshold
     \<lparr>nRows = 2, nCols = 2, data = 0\<rparr> (heap_of [0, 0, 0, 1 :: real]))"
proof -
  let ?M = "\<lparr>nRows = 2, nCols = 2, data = 0\<rparr>"
  let ?h = "heap_of [0, 0, 0, 1 :: real]"
  let ?ha = "snd (allocate (nRows ?M * nRows ?M) ?h)"
  have v: "data ?M + nRows ?M * nCols ?M \<le> brk ?h" by (simp add: heap_of_def)
  then have v': "data ?M + nRows ?M * nRows ?M \<le> brk ?h" by simp
  have va: "data ?M + nRows ?M * nCols ?M \<le> brk ?ha" using v by simp
  note tf = diag_result_allocate[OF v', of diagonal_solver "nRows ?M * nRows ?M"]
  have sq: "nRows ?M = nCols ?M" by simp
  have s: "symmetric_within default_threshold ?M ?h"
    by (simp add: symmetric_within_def heap_of_def elem_def upt_2 default_threshold_def)
  then have sa: "symmetric_within default_threshold ?M ?ha"
    by (simp only: symmetric_within_allocate[OF sq v])
  have wb: "well_behaved diagonal_solver ?M ?ha" by (rule diagonal_solver_well_behaved) simp
  have c: "\<not> complex_found default_threshold
      (eigen_triples (diag_result diagonal_solver ?M ?ha) (nRows ?M))"
    unfolding tf by (simp add: diagonal_solver_2 complex_found_def default_threshold_def)
  have "\<exists>P h' tr. applyOperation diagonal_solver (sort_key valueReal) default_threshold
        (\<lambda>x. 1 / x) ?M ?ha = ok (P, h') \<and>
      nRows P = nRows ?M \<and> nCols P = nRows ?M \<and> brk ?ha \<le> data P \<and>
      mset tr = mset (eigen_triples (diag_result diagonal_solver ?M ?ha) (nRows ?M)) \<and>
      weakly_ordered Ascending (map fst tr) \<and>
      (\<forall>r<nRows ?M. \<forall>c<nRows ?M. elem h' P r c = recomposed (\<lambda>x. 1 / x) tr r c) \<and>
      (\<forall>p<brk ?ha. cells h' p = cells ?ha p)"
    by (rule applyOperation_ok[OF sq va _ _ wb _ sort_key_sorts_by_valueReal sa c]) simp_all
  then obtain P h' where "applyOperation diagonal_solver (sort_key valueReal) default_threshold
        (\<lambda>x. 1 / x) ?M ?ha = ok (P, h')" by blast
  moreover have "inverse_matrix diagonal_solver (sort_key valueReal) default_threshold ?M ?h =
      applyOperation diagonal_solver (sort_key valueReal) default_threshold (\<lambda>x. 1 / x) ?M ?ha"
    by (rule inverse_matrix_general) simp_all
  ultimately show ?thesis by simp
qed

section \<open>Arithmetic on slices\<close>

lemma range_for_strided:
  assumes st: "0 < st"
  shows "\<exists>h'. range_for f \<lparr>beginp = b, endp = e, ptr = p, stride = st\<rparr>
                 \<lparr>beginp = b', endp = e', ptr = p + k * st, stride = z\<rparr> h = ok h' \<and>
              brk h' = brk h \<and>
              (\<forall>q. cells h' q =
                 (if p \<le> q \<and> q < p + k * st \<and> (q - p) mod st = 0 then f (cells h q) else cells h q))"
proof (induction k arbitrary: p h)
  case 0
  show ?case by (subst range_for.simps) (auto simp: ok_def)
next
  case (Suc k)
  let ?h = "poke p (f (cells h p)) h"
  from Suc.IH[of "p + st" ?h]
  obtain h' where run: "range_for f \<lparr>beginp = b, endp = e, ptr = p + st, stride = st\<rparr>
                 \<lparr>beginp = b', endp = e', ptr = p + st + k * st, stride = z\<rparr> ?h = ok h'"
    and bk: "brk h' = brk ?h"
    and cl: "\<And>q. cells h' q =
       (if p + st \<le> q \<and> q < p + st + k * st \<and> (q - (p + st)) mod st = 0
        then f (cells ?h q) else cells ?h q)"
    by blast
  have ne: "p \<noteq> p + Suc k * st" using st by simp
  have pe: "p + Suc k * st = p + st + k * st" by simp
  have "range_for f \<lparr>beginp = b, endp = e, ptr = p, stride = st\<rparr>
                 \<lparr>beginp = b', endp = e', ptr = p + Suc k * st, stride = z\<rparr> h = ok h'"
    by (subst range_for.simps) (simp only: sliceIterator.simps ne if_True not_False_eq_True
        sliceIterator.update_convs run[folded pe])
  moreover have "brk h' = brk h" using bk by simp
  moreover have "cells h' q =
      (if p \<le> q \<and> q < p + Suc k * st \<and> (q - p) mod st = 0 then f (cells h q) else cells h q)" for q
  proof (cases "q = p")
    case True
    then show ?thesis using st by (simp add: cl)
  next
    case False
    have "(p + st \<le> q \<and> (q - (p + st)) mod st = 0) \<longleftrightarrow> (p \<le> q \<and> (q - p) mod st = 0)"
    proof
      assume a: "p + st \<le> q \<and> (q - (p + st)) mod st = 0"
      then have pq: "p + st \<le> q" and m: "(q - (p + st)) mod st = 0" by blast+
      from pq have "st \<le> q - p" by linarith
      then have "(q - p) mod st = (q - p - st) mod st" by (rule le_mod_geq)
      also have "q - p - st = q - (p + st)" by simp
      finally have "(q - p) mod st = 0" using m by simp
      moreover have "p \<le> q" using pq by linarith
      ultimately show "p \<le> q \<and> (q - p) mod st = 0" by blast
    next
      assume a: "p \<le> q \<and> (q - p) mod st = 0"
      then have pq: "p \<le> q" and m: "(q - p) mod st = 0" by blast+
      from m have "st dvd (q - p)" by (simp only: dvd_eq_mod_eq_0)
      moreover have "0 < q - p" using pq False by linarith
      ultimately have le: "st \<le> q - p" by (rule dvd_imp_le)
      then have "(q - p) mod st = (q - p - st) mod st" by (rule le_mod_geq)
      also have "q - p - st = q - (p + st)" by simp
      finally have "(q - (p + st)) mod st = 0" using m by simp
      moreover have "p + st \<le> q" using le pq by linarith
      ultimately show "p + st \<le> q \<and> (q - (p + st)) mod st = 0" by blast
    qed
    then show ?thesis using False by (auto simp: cl)
  qed
  ultimately show ?case by blast
qed

lemma scalar_op:
  assumes "wf_slice s"
  shows "\<exists>h'. range_for f (slice_begin s) (slice_end s) h = ok h' \<and> brk h' = brk h \<and>
              (\<forall>q. cells h' q = (if on_slice s q then f (cells h q) else cells h q))"
proof -
  from assms have st: "0 < stride s" and le: "beginp s \<le> endp s"
    and md: "(endp s - beginp s) mod stride s = 0"
    by (simp_all add: wf_slice_def)
  have "stride s dvd endp s - beginp s" using md by (simp add: dvd_eq_mod_eq_0)
  then have "slice_size s * stride s = endp s - beginp s" by (simp add: slice_size_def)
  then have e: "endp s = beginp s + slice_size s * stride s" using le by simp
  have sb: "slice_begin s = \<lparr>beginp = beginp s, endp = endp s, ptr = beginp s, stride = stride s\<rparr>"
    by (simp add: slice_begin_def slice_def)
  have se: "slice_end s =
      \<lparr>beginp = endp s, endp = endp s, ptr = beginp s + slice_size s * stride s, stride = 0\<rparr>"
    using e by (simp add: slice_end_def slice_def)
  from range_for_strided[OF st, of f "beginp s" "endp s" "beginp s" "endp s" "endp s" "slice_size s" 0 h]
  show ?thesis unfolding sb se on_slice_def e[symmetric] by blast
qed

lemma size_slice_wf: "wf_slice s \<Longrightarrow> size_slice s = ok (slice_size s)"
  by (simp add: size_slice_def wf_slice_def slice_size_def)

lemma wf_slice_row: "wf_slice (row r M)"
  by (simp add: wf_slice_def row_def slice_def)

lemma wf_slice_col: "c < nCols M \<Longrightarrow> wf_slice (col c M)"
  by (simp add: wf_slice_def col_def slice_def)

lemma slice_checks:
  assumes "wf_slice s" and "wf_slice other"
  shows "andThen (slice_assertSameSize s other)
           (\<lambda>_. andThen (assertContiguous s) (\<lambda>_. andThen (assertContiguous other) k)) =
         (if slice_size s \<noteq> slice_size other
          then fail (runtime_error ''Slice operations only supported for slices of the same size.'')
          else if stride s \<noteq> 1 \<or> stride other \<noteq> 1
          then fail (runtime_error
                 ''Slice operations called on operation that is only allowed for contiguous data.'')
          else k ())"
  by (simp add: slice_assertSameSize_def assertContiguous_def size_slice_wf[OF assms(1)]
      size_slice_wf[OF assms(2)])

lemma transform_cells:
  assumes "\<And>i. i < last1 - first1 \<Longrightarrow> first1 + i < d \<or> d + i \<le> first1 + i"
    and "\<And>i. i < last1 - first1 \<Longrightarrow> first2 + i < d \<or> d + i \<le> first2 + i"
  shows "cells (transform first1 last1 first2 d binop h) q =
           (if d \<le> q \<and> q < d + (last1 - first1)
            then binop (cells h (first1 + (q - d))) (cells h (first2 + (q - d)))
            else cells h q)"
  unfolding transform_def
proof (rule fold_poke[where G = "\<lambda>i. binop (cells h (first1 + i)) (cells h (first2 + i))"])
  fix i h'
  assume i: "i < last1 - first1"
    and fr: "\<forall>q. q < d \<or> d + i \<le> q \<longrightarrow> cells h' q = cells h q"
  have "cells h' (first1 + i) = cells h (first1 + i)" using fr assms(1)[OF i] by blast
  moreover have "cells h' (first2 + i) = cells h (first2 + i)" using fr assms(2)[OF i] by blast
  ultimately show "binop (cells h' (first1 + i)) (cells h' (first2 + i)) =
      binop (cells h (first1 + i)) (cells h (first2 + i))"
    by simp
qed

lemma slice_size_contiguous: "wf_slice s \<Longrightarrow> stride s = 1 \<Longrightarrow> slice_size s = endp s - beginp s"
  by (simp add: slice_size_def)

lemma slice_minus_ok:
  fixes h :: "'a::{zero,minus} heap"
  assumes ws: "wf_slice s" and wo: "wf_slice other"
    and sz: "slice_size s = slice_size other" and s1: "stride s = 1" and o1: "stride other = 1"
  shows "\<exists>ret h'. slice_minus s other h = ok (ret, h') \<and> nRows ret = 1 \<and> nCols ret = slice_size s \<and>
           (endp s \<le> brk h \<and> endp other \<le> brk h \<and> slice_size s < 2 ^ 64 \<longrightarrow>
              (\<forall>i<slice_size s. elem h' ret 0 i = cells h (beginp s + i) - cells h (beginp other + i)) \<and>
              (\<forall>q<brk h. cells h' q = cells h q))"
proof -
  define n where "n = slice_size s"
  define ret where "ret = fst (Matrix_ctor 1 n h)"
  define h1 where "h1 = snd (Matrix_ctor 1 n h)"
  define h' where "h' = transform (beginp s) (endp s) (beginp other) (data ret + 0 * nCols ret)
      (\<lambda>a b. a - b) h1"
  have run: "slice_minus s other h = ok (ret, h')"
    unfolding slice_minus_def slice_checks[OF ws wo]
    using sz s1 o1
    by (simp add: size_slice_wf[OF ws] n_def ret_def h1_def h'_def case_prod_beta)
  have dims: "nRows ret = 1" "nCols ret = n"
    by (simp_all add: ret_def Matrix_ctor_def case_prod_beta)
  have ns: "n = endp s - beginp s" unfolding n_def using ws s1 by (rule slice_size_contiguous)
  have no: "n = endp other - beginp other"
    unfolding n_def sz using wo o1 by (rule slice_size_contiguous)
  have les: "beginp s \<le> endp s" "beginp other \<le> endp other"
    using ws wo by (simp_all add: wf_slice_def)
  have vals: "(\<forall>i<n. elem h' ret 0 i = cells h (beginp s + i) - cells h (beginp other + i)) \<and>
      (\<forall>q<brk h. cells h' q = cells h q)"
    if mem: "endp s \<le> brk h" "endp other \<le> brk h" and small: "n < 2 ^ 64"
  proof -
    have "1 * n < (2::nat) ^ 64" using small by simp
    from Matrix_ctor_eq[OF this, of h]
    have mc: "ret = \<lparr>nRows = 1, nCols = n, data = brk h\<rparr>" "h1 = snd (allocate n h)"
      by (simp_all add: ret_def h1_def)
    have d: "data ret + 0 * nCols ret = brk h" by (simp add: mc)
    have c: "cells h' q =
        (if brk h \<le> q \<and> q < brk h + (endp s - beginp s)
         then cells h1 (beginp s + (q - brk h)) - cells h1 (beginp other + (q - brk h))
         else cells h1 q)" for q
      unfolding h'_def d
    proof (rule transform_cells)
      fix i assume "i < endp s - beginp s"
      then show "beginp s + i < brk h \<or> brk h + i \<le> beginp s + i" using mem(1) by linarith
    next
      fix i assume "i < endp s - beginp s"
      then have "i < endp other - beginp other" using ns no by simp
      then show "beginp other + i < brk h \<or> brk h + i \<le> beginp other + i"
        using mem(2) by linarith
    qed
    have low: "cells h1 q = cells h q" if "q < brk h" for q
      using that by (simp add: mc)
    show ?thesis
    proof (intro conjI allI impI)
      fix i assume i: "i < n"
      have a: "beginp s + i < brk h" using i ns mem(1) by linarith
      have b: "beginp other + i < brk h" using i no mem(2) by linarith
      have "elem h' ret 0 i = cells h' (brk h + i)" by (simp add: elem_def mc)
      also have "\<dots> = cells h1 (beginp s + i) - cells h1 (beginp other + i)"
      proof -
        have "brk h \<le> brk h + i \<and> brk h + i < brk h + (endp s - beginp s)"
          using i ns by linarith
        then show ?thesis by (simp only: c if_True add_diff_cancel_left' simp_thms)
      qed
      finally show "elem h' ret 0 i = cells h (beginp s + i) - cells h (beginp other + i)"
        by (simp only: low[OF a] low[OF b])
    next
      fix q assume "q < brk h"
      then show "cells h' q = cells h q" by (simp add: c low)
    qed
  qed
  show ?thesis
    using run dims vals unfolding n_def by blast
qed

lemma slice_assign_slice_cells:
  assumes ws: "wf_slice s" and wo: "wf_slice other"
    and sz: "slice_size s = slice_size other" and s1: "stride s = 1" and o1: "stride other = 1"
    and apart: "beginp s \<le> beginp other \<or> endp other \<le> beginp s"
  shows "cells (transform (beginp s) (endp s) (beginp other) (beginp s) binop h) q =
           (if beginp s \<le> q \<and> q < endp s
            then binop (cells h q) (cells h (beginp other + (q - beginp s))) else cells h q)"
proof -
  have ns: "slice_size s = endp s - beginp s" using ws s1 by (rule slice_size_contiguous)
  have no: "slice_size other = endp other - beginp other" using wo o1 by (rule slice_size_contiguous)
  have les: "beginp s \<le> endp s" "beginp other \<le> endp other"
    using ws wo by (simp_all add: wf_slice_def)
  have "cells (transform (beginp s) (endp s) (beginp other) (beginp s) binop h) q =
           (if beginp s \<le> q \<and> q < beginp s + (endp s - beginp s)
            then binop (cells h (beginp s + (q - beginp s))) (cells h (beginp other + (q - beginp s)))
            else cells h q)"
  proof (rule transform_cells)
    fix i assume "i < endp s - beginp s"
    show "beginp s + i < beginp s \<or> beginp s + i \<le> beginp s + i" by simp
  next
    fix i assume "i < endp s - beginp s"
    then have "i < endp other - beginp other" using ns no sz by simp
    then show "beginp other + i < beginp s \<or> beginp s + i \<le> beginp other + i"
      using apart by linarith
  qed
  then show ?thesis using les by auto
qed

text \<open>
  Claim C7, as amended. For every pair of slice views: the three operations that combine
  two slices (\<^verbatim>\<open>operator-\<close>, which returns a new matrix with one row, \<^verbatim>\<open>operator-=\<close> and
  \<^verbatim>\<open>operator+=\<close>) return exactly when both slices have the same size and both have
  stride 1; they throw the \<^verbatim>\<open>std::runtime_error\<close> of \<^verbatim>\<open>assertSameSize\<close> when the sizes
  differ and that of \<^verbatim>\<open>assertContiguous\<close> when the sizes agree and a stride is not 1.
  When they return, \<^verbatim>\<open>operator-\<close> of two slices that lie in allocated memory gives the
  differences of the corresponding elements and changes no allocated element, and
  \<^verbatim>\<open>operator-=\<close> and \<^verbatim>\<open>operator+=\<close> replace each element of the first slice by its
  difference or sum with the corresponding element of the second, provided the second
  slice does not begin before the first and reach into it. The four operations with a
  scalar return for every view, whatever its stride, and change exactly the elements of
  the slice: \<^verbatim>\<open>+=\<close>, \<^verbatim>\<open>-=\<close> and \<^verbatim>\<open>*=\<close> by the operation with the scalar, and \<^verbatim>\<open>/=\<close> by the
  multiplication with the reciprocal \<open>1 / val\<close> of the scalar, all in the arithmetic of
  the element type.
\<close>

theorem slice_arithmetic:
  fixes h :: "'a::{zero,one,plus,minus,times,inverse} heap"
  assumes "wf_slice s" and "wf_slice other"
  shows "(slice_size s = slice_size other \<and> stride s = 1 \<and> stride other = 1 \<longrightarrow>
            (\<exists>ret h'. slice_minus s other h = ok (ret, h') \<and> nRows ret = 1 \<and>
                nCols ret = slice_size s \<and>
                (endp s \<le> brk h \<and> endp other \<le> brk h \<and> slice_size s < 2 ^ 64 \<longrightarrow>
                   (\<forall>i<slice_size s.
                      elem h' ret 0 i = cells h (beginp s + i) - cells h (beginp other + i)) \<and>
                   (\<forall>q<brk h. cells h' q = cells h q))) \<and>
            (\<exists>h'. slice_sub_assign_slice s other h = ok h' \<and>
                (beginp s \<le> beginp other \<or> endp other \<le> beginp s \<longrightarrow>
                   (\<forall>q. cells h' q =
                      (if beginp s \<le> q \<and> q < endp s
                       then cells h q - cells h (beginp other + (q - beginp s))
                       else cells h q)))) \<and>
            (\<exists>h'. slice_add_assign_slice s other h = ok h' \<and>
                (beginp s \<le> beginp other \<or> endp other \<le> beginp s \<longrightarrow>
                   (\<forall>q. cells h' q =
                      (if beginp s \<le> q \<and> q < endp s
                       then cells h q + cells h (beginp other + (q - beginp s))
                       else cells h q))))) \<and>
         (slice_size s \<noteq> slice_size other \<longrightarrow>
            slice_minus s other h =
              fail (runtime_error ''Slice operations only supported for slices of the same size.'') \<and>
            slice_sub_assign_slice s other h =
              fail (runtime_error ''Slice operations only supported for slices of the same size.'') \<and>
            slice_add_assign_slice s other h =
              fail (runtime_error ''Slice operations only supported for slices of the same size.'')) \<and>
         (slice_size s = slice_size other \<and> (stride s \<noteq> 1 \<or> stride other \<noteq> 1) \<longrightarrow>
            slice_minus s other h =
              fail (runtime_error
                ''Slice operations called on operation that is only allowed for contiguous data.'') \<and>
            slice_sub_assign_slice s other h =
              fail (runtime_error
                ''Slice operations called on operation that is only allowed for contiguous data.'') \<and>
            slice_add_assign_slice s other h =
              fail (runtime_error
                ''Slice operations called on operation that is only allowed for contiguous data.'')) \<and>
         (\<exists>h'. slice_add_assign s val h = ok h' \<and>
               (\<forall>q. cells h' q = (if on_slice s q then cells h q + val else cells h q))) \<and>
         (\<exists>h'. slice_sub_assign s val h = ok h' \<and>
               (\<forall>q. cells h' q = (if on_slice s q then cells h q - val else cells h q))) \<and>
         (\<exists>h'. slice_mul_assign s val h = ok h' \<and>
               (\<forall>q. cells h' q = (if on_slice s q then cells h q * val else cells h q))) \<and>
         (\<exists>h'. slice_div_assign s val h = ok h' \<and>
               (\<forall>q. cells h' q = (if on_slice s q then cells h q * (1 / val) else cells h q)))"
proof (intro conjI impI)
  assume a: "slice_size s = slice_size other \<and> stride s = 1 \<and> stride other = 1"
  then have sz: "slice_size s = slice_size other" and s1: "stride s = 1" and o1: "stride other = 1"
    by simp_all
  show "\<exists>ret h'. slice_minus s other h = ok (ret, h') \<and> nRows ret = 1 \<and>
                nCols ret = slice_size s \<and>
                (endp s \<le> brk h \<and> endp other \<le> brk h \<and> slice_size s < 2 ^ 64 \<longrightarrow>
                   (\<forall>i<slice_size s.
                      elem h' ret 0 i = cells h (beginp s + i) - cells h (beginp other + i)) \<and>
                   (\<forall>q<brk h. cells h' q = cells h q))"
    using assms sz s1 o1 by (rule slice_minus_ok)
  have sub: "slice_sub_assign_slice s other h =
      ok (transform (beginp s) (endp s) (beginp other) (beginp s) (\<lambda>a b. a - b) h)"
    unfolding slice_sub_assign_slice_def slice_checks[OF assms] using a by simp
  show "\<exists>h'. slice_sub_assign_slice s other h = ok h' \<and>
                (beginp s \<le> beginp other \<or> endp other \<le> beginp s \<longrightarrow>
                   (\<forall>q. cells h' q =
                      (if beginp s \<le> q \<and> q < endp s
                       then cells h q - cells h (beginp other + (q - beginp s))
                       else cells h q)))"
    using sub slice_assign_slice_cells[OF assms sz s1 o1, of "\<lambda>a b. a - b" h] by blast
  have add: "slice_add_assign_slice s other h =
      ok (transform (beginp s) (endp s) (beginp other) (beginp s) (\<lambda>a b. a + b) h)"
    unfolding slice_add_assign_slice_def slice_checks[OF assms] using a by simp
  show "\<exists>h'. slice_add_assign_slice s other h = ok h' \<and>
                (beginp s \<le> beginp other \<or> endp other \<le> beginp s \<longrightarrow>
                   (\<forall>q. cells h' q =
                      (if beginp s \<le> q \<and> q < endp s
                       then cells h q + cells h (beginp other + (q - beginp s))
                       else cells h q)))"
    using add slice_assign_slice_cells[OF assms sz s1 o1, of "\<lambda>a b. a + b" h] by blast
next
  assume a: "slice_size s \<noteq> slice_size other"
  show "slice_minus s other h =
      fail (runtime_error ''Slice operations only supported for slices of the same size.'')"
    unfolding slice_minus_def slice_checks[OF assms] using a by simp
  show "slice_sub_assign_slice s other h =
      fail (runtime_error ''Slice operations only supported for slices of the same size.'')"
    unfolding slice_sub_assign_slice_def slice_checks[OF assms] using a by simp
  show "slice_add_assign_slice s other h =
      fail (runtime_error ''Slice operations only supported for slices of the same size.'')"
    unfolding slice_add_assign_slice_def slice_checks[OF assms] using a by simp
next
  assume a: "slice_size s = slice_size other \<and> (stride s \<noteq> 1 \<or> stride other \<noteq> 1)"
  show "slice_minus s other h =
      fail (runtime_error
        ''Slice operations called on operation that is only allowed for contiguous data.'')"
    unfolding slice_minus_def slice_checks[OF assms] using a by simp
  show "slice_sub_assign_slice s other h =
      fail (runtime_error
        ''Slice operations called on operation that is only allowed for contiguous data.'')"
    unfolding slice_sub_assign_slice_def slice_checks[OF assms] using a by simp
  show "slice_add_assign_slice s other h =
      fail (runtime_error
        ''Slice operations called on operation that is only allowed for contiguous data.'')"
    unfolding slice_add_assign_slice_def slice_checks[OF assms] using a by simp
next
  show "\<exists>h'. slice_add_assign s val h = ok h' \<and>
               (\<forall>q. cells h' q = (if on_slice s q then cells h q + val else cells h q))"
    unfolding slice_add_assign_def using scalar_op[OF assms(1), of "\<lambda>element. element + val" h] by blast
  show "\<exists>h'. slice_sub_assign s val h = ok h' \<and>
               (\<forall>q. cells h' q = (if on_slice s q then cells h q - val else cells h q))"
    unfolding slice_sub_assign_def using scalar_op[OF assms(1), of "\<lambda>element. element - val" h] by blast
  show "\<exists>h'. slice_mul_assign s val h = ok h' \<and>
               (\<forall>q. cells h' q = (if on_slice s q then cells h q * val else cells h q))"
    unfolding slice_mul_assign_def using scalar_op[OF assms(1), of "\<lambda>element. element * val" h] by blast
  show "\<exists>h'. slice_div_assign s val h = ok h' \<and>
               (\<forall>q. cells h' q = (if on_slice s q then cells h q * (1 / val) else cells h q))"
    unfolding slice_div_assign_def Let_def
    using scalar_op[OF assms(1), of "\<lambda>element. element * (1 / val)" h] by blast
qed

theorem slice_arithmetic_witness:
  "slice_minus (col 0 \<lparr>nRows = 2, nCols = 2, data = 0\<rparr>) (col 1 \<lparr>nRows = 2, nCols = 2, data = 0\<rparr>)
     (heap_of [1, 2, 3, 4 :: real]) =
     fail (runtime_error
       ''Slice operations called on operation that is only allowed for contiguous data.'') \<and>
   (\<exists>h'. slice_sub_assign_slice (row 0 \<lparr>nRows = 2, nCols = 2, data = 0\<rparr>)
            (row 1 \<lparr>nRows = 2, nCols = 2, data = 0\<rparr>) (heap_of [1, 2, 3, 4 :: real]) = ok h' \<and>
         cells h' 0 = - 2 \<and> cells h' 1 = - 2 \<and> cells h' 2 = 3 \<and> cells h' 3 = 4) \<and>
   (\<exists>ret h'. slice_minus (row 1 \<lparr>nRows = 2, nCols = 2, data = 0\<rparr>)
            (row 0 \<lparr>nRows = 2, nCols = 2, data = 0\<rparr>) (heap_of [1, 2, 3, 5 :: real]) = ok (ret, h') \<and>
         nRows ret = 1 \<and> nCols ret = 2 \<and> elem h' ret 0 0 = 2 \<and> elem h' ret 0 1 = 3) \<and>
   (\<exists>h'. slice_mul_assign (col 0 \<lparr>nRows = 2, nCols = 2, data = 0\<rparr>) 10 (heap_of [1, 2, 3, 4 :: real]) = ok h' \<and>
         cells h' 0 = 10 \<and> cells h' 1 = 2 \<and> cells h' 2 = 30 \<and> cells h' 3 = 4) \<and>
   (\<exists>h'. slice_div_assign (col 1 \<lparr>nRows = 2, nCols = 2, data = 0\<rparr>) 2 (heap_of [1, 2, 3, 4 :: real]) = ok h' \<and>
         cells h' 0 = 1 \<and> cells h' 1 = 1 \<and> cells h' 2 = 3 \<and> cells h' 3 = 2)"
proof -
  let ?M = "\<lparr>nRows = 2, nCols = 2, data = 0\<rparr>"
  let ?h = "heap_of [1, 2, 3, 4 :: real]"
  let ?g = "heap_of [1, 2, 3, 5 :: real]"
  have c0: "wf_slice (col 0 ?M)" and c1: "wf_slice (col 1 ?M)" by (simp_all add: wf_slice_col)
  have r0: "wf_slice (row 0 ?M)" and r1: "wf_slice (row 1 ?M)" by (rule wf_slice_row)+
  note A = slice_arithmetic[OF c0 c1, of ?h 10]
  note B = slice_arithmetic[OF r0 r1, of ?h 10]
  note C = slice_arithmetic[OF r1 r0, of ?g 10]
  note D = slice_arithmetic[OF c1 c0, of ?h 2]
  have nc: "slice_size (col 0 ?M) = slice_size (col 1 ?M) \<and>
      (stride (col 0 ?M) \<noteq> 1 \<or> stride (col 1 ?M) \<noteq> 1)"
    by (simp add: col_def slice_def slice_size_def)
  have rc: "slice_size (row 0 ?M) = slice_size (row 1 ?M) \<and> stride (row 0 ?M) = 1 \<and> stride (row 1 ?M) = 1"
    "slice_size (row 1 ?M) = slice_size (row 0 ?M) \<and> stride (row 1 ?M) = 1 \<and> stride (row 0 ?M) = 1"
    by (simp_all add: row_def slice_def slice_size_def)
  from A nc have 1: "slice_minus (col 0 ?M) (col 1 ?M) ?h =
      fail (runtime_error
        ''Slice operations called on operation that is only allowed for contiguous data.'')"
    by blast
  have ap: "beginp (row 0 ?M) \<le> beginp (row 1 ?M) \<or> endp (row 1 ?M) \<le> beginp (row 0 ?M)"
    by (simp add: row_def slice_def)
  from B rc(1) ap obtain h2 where run2: "slice_sub_assign_slice (row 0 ?M) (row 1 ?M) ?h = ok h2"
    and cl2: "\<And>q. cells h2 q =
        (if beginp (row 0 ?M) \<le> q \<and> q < endp (row 0 ?M)
         then cells ?h q - cells ?h (beginp (row 1 ?M) + (q - beginp (row 0 ?M))) else cells ?h q)"
    by blast
  have v2: "cells h2 0 = - 2" "cells h2 1 = - 2" "cells h2 2 = 3" "cells h2 3 = 4"
    by (simp_all add: cl2 row_def slice_def heap_of_def)
  have mem: "endp (row 1 ?M) \<le> brk ?g \<and> endp (row 0 ?M) \<le> brk ?g \<and> slice_size (row 1 ?M) < 2 ^ 64"
    by (simp add: row_def slice_def heap_of_def slice_size_def)
  from C rc(2) mem obtain ret h3 where run3: "slice_minus (row 1 ?M) (row 0 ?M) ?g = ok (ret, h3)"
    and d3: "nRows ret = 1" "nCols ret = slice_size (row 1 ?M)"
    and cl3: "\<And>i. i < slice_size (row 1 ?M) \<Longrightarrow>
        elem h3 ret 0 i = cells ?g (beginp (row 1 ?M) + i) - cells ?g (beginp (row 0 ?M) + i)"
    by blast
  have s2: "slice_size (row 1 ?M) = 2" by (simp add: row_def slice_def slice_size_def)
  have i3: "0 < slice_size (row 1 ?M)" "1 < slice_size (row 1 ?M)" unfolding s2 by simp_all
  have v3: "elem h3 ret 0 0 = 2" "elem h3 ret 0 1 = 3"
    using cl3[OF i3(1)] cl3[OF i3(2)] by (simp_all add: row_def slice_def heap_of_def)
  from A obtain h4 where run4: "slice_mul_assign (col 0 ?M) 10 ?h = ok h4"
    and cl4: "\<And>q. cells h4 q = (if on_slice (col 0 ?M) q then cells ?h q * 10 else cells ?h q)"
    by blast
  have v4: "cells h4 0 = 10" "cells h4 1 = 2" "cells h4 2 = 30" "cells h4 3 = 4"
    by (simp_all add: cl4 on_slice_def col_def slice_def heap_of_def)
  from D obtain h5 where run5: "slice_div_assign (col 1 ?M) 2 ?h = ok h5"
    and cl5: "\<And>q. cells h5 q = (if on_slice (col 1 ?M) q then cells ?h q * (1 / 2) else cells ?h q)"
    by blast
  have v5: "cells h5 0 = 1" "cells h5 1 = 1" "cells h5 2 = 3" "cells h5 3 = 2"
    by (simp_all add: cl5 on_slice_def col_def slice_def heap_of_def)
  have 2: "\<exists>h'. slice_sub_assign_slice (row 0 ?M) (row 1 ?M) ?h = ok h' \<and>
         cells h' 0 = - 2 \<and> cells h' 1 = - 2 \<and> cells h' 2 = 3 \<and> cells h' 3 = 4"
    using run2 v2 by blast
  have 3: "\<exists>ret h'. slice_minus (row 1 ?M) (row 0 ?M) ?g = ok (ret, h') \<and>
         nRows ret = 1 \<and> nCols ret = 2 \<and> elem h' ret 0 0 = 2 \<and> elem h' ret 0 1 = 3"
    using run3 d3 s2 v3 by auto
  have 4: "\<exists>h'. slice_mul_assign (col 0 ?M) 10 ?h = ok h' \<and>
         cells h' 0 = 10 \<and> cells h' 1 = 2 \<and> cells h' 2 = 30 \<and> cells h' 3 = 4"
    using run4 v4 by blast
  have 5: "\<exists>h'. slice_div_assign (col 1 ?M) 2 ?h = ok h' \<and>
         cells h' 0 = 1 \<and> cells h' 1 = 1 \<and> cells h' 2 = 3 \<and> cells h' 3 = 2"
    using run5 v5 by blast
  show ?thesis using 1 2 3 4 5 by (intro conjI)
qed

text \<open>
  Division by a scalar is not the quotient of each element by the scalar. In double
  precision the reciprocal of 49 is rounded, and 49 times it is
  \<open>1 - 2\<^sup>-\<^sup>5\<^sup>3\<close>, while the quotient of 49 by 49 is 1.
\<close>

theorem slice_divide_is_reciprocal_product:
  "map_option value_of
     (result_cell
        (slice_div_assign (row 0 \<lparr>nRows = 1, nCols = 1, data = 0\<rparr>) (Binary64 49)
           (heap_of [Binary64 49])) 0) =
   Some (1 - 1 / 2 ^ 53) \<and>
   value_of (Binary64 49 / Binary64 49) = 1"
proof -
  let ?s = "row 0 \<lparr>nRows = 1, nCols = 1, data = 0\<rparr>"
  define h where "h = heap_of [Binary64 49]"
  have w: "wf_slice ?s" by (rule wf_slice_row)
  from scalar_op[OF w, of "\<lambda>element. element * (1 / Binary64 49)" h]
  obtain h' where run: "range_for (\<lambda>element. element * (1 / Binary64 49)) (slice_begin ?s) (slice_end ?s) h = ok h'"
    and cl: "\<And>q. cells h' q = (if on_slice ?s q then cells h q * (1 / Binary64 49) else cells h q)"
    by blast
  have on: "on_slice ?s 0" by (simp add: on_slice_def row_def slice_def)
  have c0: "cells h 0 = Binary64 49" by (simp add: h_def heap_of_def)
  have r: "(1 :: binary64) / Binary64 49 = Binary64 (5882252574524729 / 2 ^ 58)"
    unfolding divide_binary64_def one_binary64_def binary64.sel by (simp only: round_inverse_49)
  have "cells h' 0 = Binary64 49 * (1 / Binary64 49)" using cl[of 0] on c0 by simp
  also have "\<dots> = Binary64 (1 - 1 / 2 ^ 53)"
    unfolding r times_binary64_def binary64.sel by (simp only: round_49_times)
  finally have v: "cells h' 0 = Binary64 (1 - 1 / 2 ^ 53)" .
  have "slice_div_assign ?s (Binary64 49) h = ok h'"
    unfolding slice_div_assign_def Let_def by (rule run)
  then have "result_cell (slice_div_assign ?s (Binary64 49) h) 0 = Some (Binary64 (1 - 1 / 2 ^ 53))"
    by (simp add: result_cell_def ok_def v)
  then have 1: "map_option value_of (result_cell (slice_div_assign ?s (Binary64 49) h) 0) =
      Some (1 - 1 / 2 ^ 53)"
    by simp
  have "value_of (Binary64 49 / Binary64 49) = round_binary64 1"
    unfolding divide_binary64_def binary64.sel by simp
  then have 2: "value_of (Binary64 49 / Binary64 49) = 1" by (simp only: round_one)
  show ?thesis using 1 2 unfolding h_def by (intro conjI)
qed

section \<open>The boundary catches everything\<close>

text \<open>
  Claim C5. At each of the eight entry points (create, setup, set_lattice_vectors and
  compute_EF_rec, in double and in single precision): when the wrapped call returns a
  value, the entry point returns that value unchanged. When it throws a
  \<^verbatim>\<open>std::runtime_error\<close>, the entry point writes the message of the exception,
  \<^verbatim>\<open>e.what()\<close>, followed by a line break to the standard error stream and ends the
  process with exit code 1; when it throws anything else, the entry point writes the
  fixed text that names an entry point, followed by a line break, and ends the process
  with exit code 1 (the two entry points for compute_EF_rec name themselves
  \<^verbatim>\<open>helpme_run_pmeD\<close> and \<^verbatim>\<open>helpme_run_pmeF\<close>). Every thrown object is of one of the
  two kinds, so no exception leaves the boundary, the exit code is never 0 and the text
  written is the diagnostic followed by the line break.
\<close>

theorem boundary_catches_all:
  "helpme_createD (Inr v1) = Returned v1 \<and>
   helpme_createF (Inr v2) = Returned v2 \<and>
   helpme_setupD (Inr u1) = Returned u1 \<and>
   helpme_setupF (Inr u2) = Returned u2 \<and>
   helpme_set_lattice_vectorsD (Inr u3) = Returned u3 \<and>
   helpme_set_lattice_vectorsF (Inr u4) = Returned u4 \<and>
   helpme_compute_EF_recD (Inr e1) = Returned e1 \<and>
   helpme_compute_EF_recF (Inr e2) = Returned e2 \<and>
   helpme_createD (Inl (std_runtime_error what)) = Exited 1 (what @ endl) \<and>
   helpme_createD (Inl other_exception) =
     Exited 1 (''An unknown error occured in helpme_createD'' @ endl) \<and>
   helpme_createF (Inl (std_runtime_error what)) = Exited 1 (what @ endl) \<and>
   helpme_createF (Inl other_exception) =
     Exited 1 (''An unknown error occured in helpme_createF'' @ endl) \<and>
   helpme_setupD (Inl (std_runtime_error what)) = Exited 1 (what @ endl) \<and>
   helpme_setupD (Inl other_exception) =
     Exited 1 (''An unknown error occured in helpme_setupD'' @ endl) \<and>
   helpme_setupF (Inl (std_runtime_error what)) = Exited 1 (what @ endl) \<and>
   helpme_setupF (Inl other_exception) =
     Exited 1 (''An unknown error occured in helpme_setupF'' @ endl) \<and>
   helpme_set_lattice_vectorsD (Inl (std_runtime_error what)) = Exited 1 (what @ endl) \<and>
   helpme_set_lattice_vectorsD (Inl other_exception) =
     Exited 1 (''An unknown error occured in helpme_set_lattice_vectorsD'' @ endl) \<and>
   helpme_set_lattice_vectorsF (Inl (std_runtime_error what)) = Exited 1 (what @ endl) \<and>
   helpme_set_lattice_vectorsF (Inl other_exception) =
     Exited 1 (''An unknown error occured in helpme_set_lattice_vectorsF'' @ endl) \<and>
   helpme_compute_EF_recD (Inl (std_runtime_error what)) = Exited 1 (what @ endl) \<and>
   helpme_compute_EF_recD (Inl other_exception) =
     Exited 1 (''An unknown error occured in helpme_run_pmeD'' @ endl) \<and>
   helpme_compute_EF_recF (Inl (std_runtime_error what)) = Exited 1 (what @ endl) \<and>
   helpme_compute_EF_recF (Inl other_exception) =
     Exited 1 (''An unknown error occured in helpme_run_pmeF'' @ endl) \<and>
   (t = other_exception \<or> (\<exists>what. t = std_runtime_error what)) \<and>
   (1::int) \<noteq> 0 \<and>
   endl \<noteq> []"
proof -
  have t: "t = other_exception \<or> (\<exists>what. t = std_runtime_error what)" by (cases t) auto
  show ?thesis
    unfolding helpme_createD_def helpme_createF_def helpme_setupD_def helpme_setupF_def
      helpme_set_lattice_vectorsD_def helpme_set_lattice_vectorsF_def
      helpme_compute_EF_recD_def helpme_compute_EF_recF_def
    using t by (simp add: endl_def)
qed

end
